theory Spec2Isabelle
  imports Main
begin

section \<open>JavaScript values and the object heap\<close>

text \<open>
  The logging facade of \<^verbatim>\<open>src/logging.ts\<close> works on JavaScript objects that are
  shared by reference: the log record holds references to the caller's objects, and the
  redaction primitive mutates its argument in place. Objects therefore live in an explicit
  heap; a value is a primitive or a reference into the heap. Numbers are the integers (the
  floating-point part of JavaScript numbers is outside the model), functions are opaque,
  and objects are plain data: own enumerable string-keyed properties in enumeration order,
  no getters, prototypes or \<^verbatim>\<open>toJSON\<close> methods. Properties are enumerated in the order
  in which they were created (the rule that puts integer-like keys of an object first is
  not modelled). Strings are lists of 8-bit characters.
\<close>

type_synonym addr = nat

datatype val =
    VUndefined
  | VNull
  | VBool bool
  | VNum int
  | VStr string
  | VBigInt int
  | VFun nat
  | VRef addr

datatype obj = Object "(string \<times> val) list" | Array "val list"

type_synonym heap = "obj list"

datatype error = TypeError | SyntaxError | RedactError | NotARecord

text \<open>JavaScript truthiness, as used by \<^verbatim>\<open>!x\<close>, \<^verbatim>\<open>x || y\<close> and \<^verbatim>\<open>x ? a : b\<close>.\<close>

fun truthy :: "val \<Rightarrow> bool" where
  "truthy VUndefined = False"
| "truthy VNull = False"
| "truthy (VBool b) = b"
| "truthy (VNum n) = (n \<noteq> 0)"
| "truthy (VStr s) = (s \<noteq> [])"
| "truthy (VBigInt n) = (n \<noteq> 0)"
| "truthy (VFun f) = True"
| "truthy (VRef a) = True"

definition js_or :: "val \<Rightarrow> val \<Rightarrow> val" where
  "js_or a b = (if truthy a then a else b)"

definition lookup :: "heap \<Rightarrow> addr \<Rightarrow> obj option" where
  "lookup h a = (if a < length h then Some (h ! a) else None)"

text \<open>Decimal numerals: array indices as property keys, and numbers in JSON text.\<close>

definition digit_char :: "nat \<Rightarrow> char" where
  "digit_char d = char_of (48 + d)"

fun show_nat :: "nat \<Rightarrow> string" where
  "show_nat n = (if n < 10 then [digit_char n] else show_nat (n div 10) @ [digit_char (n mod 10)])"

declare show_nat.simps [simp del]

definition show_int :: "int \<Rightarrow> string" where
  "show_int i = (if i < 0 then CHR ''-'' # show_nat (nat (- i)) else show_nat (nat i))"

text \<open>
  The own enumerable string-keyed properties of a value, in enumeration order: what
  \<^verbatim>\<open>Object.keys\<close>, object spread and \<^verbatim>\<open>Object.assign\<close> see. An array has its indices,
  a string its characters, every other primitive nothing.
\<close>

definition cell_props :: "obj \<Rightarrow> (string \<times> val) list" where
  "cell_props c = (case c of
      Object fs \<Rightarrow> fs
    | Array vs \<Rightarrow> zip (map show_nat [0..<length vs]) vs)"

definition own_props :: "heap \<Rightarrow> val \<Rightarrow> (string \<times> val) list" where
  "own_props h v = (case v of
      VRef a \<Rightarrow> (case lookup h a of Some c \<Rightarrow> cell_props c | None \<Rightarrow> [])
    | VStr s \<Rightarrow> zip (map show_nat [0..<length s]) (map (\<lambda>c. VStr [c]) s)
    | _ \<Rightarrow> [])"

text \<open>
  Reading a property, \<^verbatim>\<open>x.k\<close>. A missing property reads as \<^verbatim>\<open>undefined\<close>. The source
  reads properties only of values it has tested to be truthy, where the read cannot throw.
\<close>

definition get_prop :: "heap \<Rightarrow> val \<Rightarrow> string \<Rightarrow> val" where
  "get_prop h v k = (case map_of (own_props h v) k of Some x \<Rightarrow> x | None \<Rightarrow> VUndefined)"

definition has_prop :: "heap \<Rightarrow> val \<Rightarrow> string \<Rightarrow> bool" where
  "has_prop h v k = (k \<in> set (map fst (own_props h v)))"

text \<open>
  Writing a property, \<^verbatim>\<open>o[k] = v\<close>, on a property list: an existing key keeps its place,
  a new key is appended.
\<close>

fun set_prop :: "string \<Rightarrow> 'a \<Rightarrow> (string \<times> 'a) list \<Rightarrow> (string \<times> 'a) list" where
  "set_prop k v [] = [(k, v)]"
| "set_prop k v ((k', v') # fs) = (if k = k' then (k, v) # fs else (k', v') # set_prop k v fs)"

text \<open>\<^verbatim>\<open>Object.assign(target, source)\<close> on property lists: every source property is written.\<close>

definition assign_props :: "(string \<times> 'a) list \<Rightarrow> (string \<times> 'a) list \<Rightarrow> (string \<times> 'a) list" where
  "assign_props target source = foldl (\<lambda>fs (k, v). set_prop k v fs) target source"

definition starts_with :: "string \<Rightarrow> string \<Rightarrow> bool" where
  "starts_with s p = (take (length p) s = p)"


section \<open>Record serializers (createDetailedRequestSerializers)\<close>

text \<open>
  \<^verbatim>\<open>serializers.req\<close>: \<^verbatim>\<open>if (!req || !req.connection) return req\<close>, else a new object
  literal of seven properties.
\<close>

definition req_serializer :: "heap \<Rightarrow> val \<Rightarrow> heap \<times> val" where
  "req_serializer h req =
     (if \<not> truthy req \<or> \<not> truthy (get_prop h req ''connection'') then (h, req)
      else (h @ [Object
              [(''method'', get_prop h req ''method''),
               (''url'', js_or (get_prop h req ''originalUrl'') (get_prop h req ''url'')),
               (''query'', get_prop h req ''query''),
               (''body'', get_prop h req ''body''),
               (''headers'', get_prop h req ''headers''),
               (''remoteAddress'', get_prop h (get_prop h req ''connection'') ''remoteAddress''),
               (''remotePort'', get_prop h (get_prop h req ''connection'') ''remotePort'')]],
            VRef (length h)))"

text \<open>\<^verbatim>\<open>serializers.res\<close>: \<^verbatim>\<open>if (!res || !res.statusCode) return res\<close>, else a new object.\<close>

definition res_serializer :: "heap \<Rightarrow> val \<Rightarrow> heap \<times> val" where
  "res_serializer h res =
     (if \<not> truthy res \<or> \<not> truthy (get_prop h res ''statusCode'') then (h, res)
      else (h @ [Object
              [(''statusCode'', get_prop h res ''statusCode''),
               (''header'', get_prop h res ''_header'')]],
            VRef (length h)))"


section \<open>Logger factory: the configuration read from the environment\<close>

record env =
  GAE_SERVICE :: "string option"
  K_SERVICE :: "string option"
  LOG_LEVEL :: "string option"

text \<open>An environment variable is a string or unset; the empty string is falsy.\<close>

definition env_truthy :: "string option \<Rightarrow> bool" where
  "env_truthy x = (case x of None \<Rightarrow> False | Some s \<Rightarrow> s \<noteq> [])"

text \<open>\<^verbatim>\<open>process.env.GAE_SERVICE || process.env.K_SERVICE\<close>\<close>

definition getGoogleServiceName :: "env \<Rightarrow> string option" where
  "getGoogleServiceName e = (if env_truthy (GAE_SERVICE e) then GAE_SERVICE e else K_SERVICE e)"

text \<open>bunyan's \<^verbatim>\<open>LogLevel\<close> is a level name or a number.\<close>

datatype log_level = LevelName string | LevelNum int

fun level_truthy :: "log_level \<Rightarrow> bool" where
  "level_truthy (LevelName s) = (s \<noteq> [])"
| "level_truthy (LevelNum n) = (n \<noteq> 0)"

datatype stream_kind =
    CloudLogging (redirectToStdout: bool) (useMessageField: bool)
  | PrettyConsole (mode: string)

record stream =
  stream_kind :: stream_kind
  stream_level :: log_level

record logger_settings =
  logger_name :: string
  logger_streams :: "stream list"

text \<open>\<^verbatim>\<open>level || process.env.LOG_LEVEL || 'info'\<close>\<close>

definition logLevel :: "env \<Rightarrow> log_level option \<Rightarrow> log_level" where
  "logLevel e level =
     (case level of
        Some l \<Rightarrow> if level_truthy l then l
                  else if env_truthy (LOG_LEVEL e) then LevelName (the (LOG_LEVEL e))
                  else LevelName ''info''
      | None \<Rightarrow> if env_truthy (LOG_LEVEL e) then LevelName (the (LOG_LEVEL e))
                else LevelName ''info'')"

text \<open>Lines 41 to 69 of \<^verbatim>\<open>createLogger\<close>: the name and the streams given to the engine.\<close>

definition createLogger_settings :: "env \<Rightarrow> log_level option \<Rightarrow> logger_settings" where
  "createLogger_settings e level =
     (let googleServiceName = getGoogleServiceName e in
      if env_truthy googleServiceName
      then \<lparr>logger_name = the googleServiceName,
            logger_streams = [\<lparr>stream_kind = CloudLogging True False,
                               stream_level = logLevel e level\<rparr>]\<rparr>
      else \<lparr>logger_name = ''default'',
            logger_streams = [\<lparr>stream_kind = PrettyConsole ''short'',
                               stream_level = logLevel e level\<rparr>]\<rparr>)"


section \<open>Request logging middleware: the completion record\<close>

text \<open>
  The keys for trace correlation. They are constants of the cloud logging library the
  source imports them from; their values are the ones that library documents.
\<close>

definition LOGGING_TRACE_KEY :: string where
  "LOGGING_TRACE_KEY = ''logging.googleapis.com/trace''"

definition LOGGING_SPAN_KEY :: string where
  "LOGGING_SPAN_KEY = ''logging.googleapis.com/spanId''"

definition LOGGING_SAMPLED_KEY :: string where
  "LOGGING_SAMPLED_KEY = ''logging.googleapis.com/trace_sampled''"

text \<open>
  The conditional expression that computes \<^verbatim>\<open>requestUrl\<close>. The declared type of the
  property is \<^verbatim>\<open>string | undefined\<close>; \<^verbatim>\<open>requestUrl?.startsWith\<close> short-circuits on
  \<^verbatim>\<open>undefined\<close> and \<^verbatim>\<open>null\<close>, and calling it on any other non-string is a TypeError.
\<close>

definition rewrite_requestUrl :: "string \<Rightarrow> val \<Rightarrow> error + val" where
  "rewrite_requestUrl cloudFunctionName requestUrl =
     (case requestUrl of
        VStr s \<Rightarrow>
          Inr (if starts_with s ''/'' \<and> \<not> starts_with s (''/'' @ cloudFunctionName)
               then VStr (''/'' @ cloudFunctionName @ s) else VStr s)
      | VUndefined \<Rightarrow> Inr VUndefined
      | VNull \<Rightarrow> Inr VNull
      | _ \<Rightarrow> Inl TypeError)"

text \<open>
  \<^verbatim>\<open>emitRequestLog\<close>: the fields object handed to \<^verbatim>\<open>logger.info\<close> with the message
  \<^verbatim>\<open>'Request finished'\<close>. The copy of \<^verbatim>\<open>httpRequest\<close> is a new object.
\<close>

definition emitRequestLog ::
  "env \<Rightarrow> heap \<Rightarrow> val \<Rightarrow> val \<Rightarrow> val \<Rightarrow> val \<Rightarrow> val \<Rightarrow> val \<Rightarrow> error + heap \<times> (string \<times> val) list \<times> string" where
  "emitRequestLog e h req res httpRequest trace span sampled =
     (let requestUrl = get_prop h httpRequest ''requestUrl'';
          cloudFunctionName = K_SERVICE e
      in if env_truthy cloudFunctionName
         then (case rewrite_requestUrl (the cloudFunctionName) requestUrl of
                 Inl err \<Rightarrow> Inl err
               | Inr url \<Rightarrow>
                   Inr (h @ [Object (set_prop ''requestUrl'' url (own_props h httpRequest))],
                        assign_props [(''req'', req), (''res'', res)]
                          [(''httpRequest'', VRef (length h)),
                           (LOGGING_TRACE_KEY, trace),
                           (LOGGING_SPAN_KEY, span),
                           (LOGGING_SAMPLED_KEY, sampled)],
                        ''Request finished''))
         else Inr (h, [(''req'', req), (''res'', res)], ''Request finished''))"


section \<open>JSON text: JSON.stringify and JSON.parse\<close>

text \<open>
  \<^verbatim>\<open>JSON.stringify\<close> and \<^verbatim>\<open>JSON.parse\<close> are built into the language; they are modelled
  here as the language standard describes them, for the values of this model.

  The data a value denotes, read off the heap: the tree that \<^verbatim>\<open>JSON.stringify\<close> walks.
  \<open>TCircular\<close> marks the place where the walk meets an object that is already on the path
  from the root, which is where \<^verbatim>\<open>JSON.stringify\<close> throws.
\<close>

datatype tree =
    TUndefined
  | TNull
  | TBool bool
  | TNum int
  | TStr string
  | TBigInt int
  | TFun nat
  | TCircular
  | TObj "(string \<times> tree) list"
  | TArr "tree list"

function snap :: "heap \<Rightarrow> addr list \<Rightarrow> val \<Rightarrow> tree" where
  "snap h anc VUndefined = TUndefined"
| "snap h anc VNull = TNull"
| "snap h anc (VBool b) = TBool b"
| "snap h anc (VNum n) = TNum n"
| "snap h anc (VStr s) = TStr s"
| "snap h anc (VBigInt n) = TBigInt n"
| "snap h anc (VFun f) = TFun f"
| "snap h anc (VRef a) =
     (if a \<in> set anc then TCircular
      else (case lookup h a of
              None \<Rightarrow> TUndefined
            | Some (Object fs) \<Rightarrow> TObj (map (\<lambda>(k, v). (k, snap h (a # anc) v)) fs)
            | Some (Array vs) \<Rightarrow> TArr (map (snap h (a # anc)) vs)))"
  by pat_completeness auto
termination
proof (relation "measure (\<lambda>(h, anc, v). length h - card (set anc \<inter> {..<length h}))")
  fix h :: heap and anc :: "addr list" and a :: addr and c
  assume fresh: "a \<notin> set anc" and look: "lookup h a = Some c"
  from look have bound: "a < length h" by (simp add: lookup_def split: if_splits)
  have "card (insert a (set anc \<inter> {..<length h})) = Suc (card (set anc \<inter> {..<length h}))"
    using fresh by simp
  moreover have "card (insert a (set anc \<inter> {..<length h})) \<le> card {..<length h}"
    using bound by (intro card_mono) auto
  moreover have "set (a # anc) \<inter> {..<length h} = insert a (set anc \<inter> {..<length h})"
    using bound by auto
  ultimately have "length h - card (set (a # anc) \<inter> {..<length h})
      < length h - card (set anc \<inter> {..<length h})"
    by simp
  then have step: "((h, a # anc, v), (h, anc, VRef a))
      \<in> measure (\<lambda>(h, anc, v). length h - card (set anc \<inter> {..<length h}))" for v
    by simp
  show "((h, a # anc, v), (h, anc, VRef a))
      \<in> measure (\<lambda>(h, anc, v). length h - card (set anc \<inter> {..<length h}))" for v
    by (rule step)
  show "((h, a # anc, v), (h, anc, VRef a))
      \<in> measure (\<lambda>(h, anc, v). length h - card (set anc \<inter> {..<length h}))" for v
    by (rule step)
qed simp

text \<open>
  The snapshot of an object that is not stored in the heap, such as the temporary
  \<^verbatim>\<open>rest\<close> object of the interceptor: nothing refers to it, so the walk below it starts
  with the given path.
\<close>

definition snap_cell :: "heap \<Rightarrow> addr list \<Rightarrow> obj \<Rightarrow> tree" where
  "snap_cell h anc c = (case c of
      Object fs \<Rightarrow> TObj (map (\<lambda>(k, v). (k, snap h anc v)) fs)
    | Array vs \<Rightarrow> TArr (map (snap h anc) vs))"

text \<open>
  \<^verbatim>\<open>JSON.stringify\<close> without indentation. A property whose value is \<^verbatim>\<open>undefined\<close> or a
  function is left out of an object and printed as \<^verbatim>\<open>null\<close> in an array; a BigInt or a
  circular reference anywhere throws a TypeError; a top-level \<^verbatim>\<open>undefined\<close> or function
  gives \<^verbatim>\<open>undefined\<close> instead of a string. Strings are lists of 8-bit characters; the
  quotation mark, the backslash and the control characters are escaped.
\<close>

fun omitted :: "tree \<Rightarrow> bool" where
  "omitted TUndefined = True"
| "omitted (TFun f) = True"
| "omitted t = False"

fun throws :: "tree \<Rightarrow> bool" where
  "throws (TBigInt n) = True"
| "throws TCircular = True"
| "throws (TObj fs) = (\<exists>(k, t) \<in> set fs. throws t)"
| "throws (TArr ts) = (\<exists>t \<in> set ts. throws t)"
| "throws t = False"

definition hex_char :: "nat \<Rightarrow> char" where
  "hex_char d = (if d < 10 then char_of (48 + d) else char_of (87 + d))"

definition escape_char :: "char \<Rightarrow> string" where
  "escape_char c =
     (if c = CHR 0x22 then [CHR 0x5C, CHR 0x22]
      else if c = CHR 0x5C then [CHR 0x5C, CHR 0x5C]
      else if c = CHR 0x08 then [CHR 0x5C, CHR ''b'']
      else if c = CHR 0x0C then [CHR 0x5C, CHR ''f'']
      else if c = CHR 0x0A then [CHR 0x5C, CHR ''n'']
      else if c = CHR 0x0D then [CHR 0x5C, CHR ''r'']
      else if c = CHR 0x09 then [CHR 0x5C, CHR ''t'']
      else if (of_char c :: nat) < 32
        then [CHR 0x5C, CHR ''u'', CHR ''0'', CHR ''0'',
              hex_char (of_char c div 16), hex_char (of_char c mod 16)]
      else [c])"

definition quote :: "string \<Rightarrow> string" where
  "quote s = CHR 0x22 # concat (map escape_char s) @ [CHR 0x22]"

fun show_tree :: "tree \<Rightarrow> string"
  and show_elems :: "tree list \<Rightarrow> string"
  and show_members :: "(string \<times> tree) list \<Rightarrow> string" where
  "show_tree TNull = ''null''"
| "show_tree (TBool b) = (if b then ''true'' else ''false'')"
| "show_tree (TNum n) = show_int n"
| "show_tree (TStr s) = quote s"
| "show_tree (TArr ts) = ''['' @ tl (show_elems ts) @ '']''"
| "show_tree (TObj fs) = ''{'' @ tl (show_members fs) @ ''}''"
| "show_tree TUndefined = []"
| "show_tree (TFun f) = []"
| "show_tree (TBigInt n) = []"
| "show_tree TCircular = []"
| "show_elems [] = []"
| "show_elems (t # ts) = '','' @ (if omitted t then ''null'' else show_tree t) @ show_elems ts"
| "show_members [] = []"
| "show_members ((k, t) # fs) =
     (if omitted t then show_members fs
      else '','' @ quote k @ '':'' @ show_tree t @ show_members fs)"

definition stringify_tree :: "tree \<Rightarrow> error + string option" where
  "stringify_tree t =
     (if throws t then Inl TypeError
      else if omitted t then Inr None
      else Inr (Some (show_tree t)))"

definition JSON_stringify :: "heap \<Rightarrow> val \<Rightarrow> error + string option" where
  "JSON_stringify h v = stringify_tree (snap h [] v)"

definition JSON_stringify_cell :: "heap \<Rightarrow> obj \<Rightarrow> error + string option" where
  "JSON_stringify_cell h c = stringify_tree (snap_cell h [] c)"

text \<open>
  \<^verbatim>\<open>JSON.parse\<close>: a recursive-descent parser for the JSON grammar with integer numerals
  (a numeral with a fraction or an exponent is not a text of this model) and 8-bit
  characters (an escape of a code unit above \<^verbatim>\<open>00ff\<close> is not either). A repeated key keeps its first
  place and its last value. The parsers return the value read and the rest of the input;
  the length tests before the recursive calls always succeed (the lemmas
  \<open>parse_consumes\<close> and \<open>parse_elems_unguarded\<close> below) and make the recursion visibly
  terminating.
\<close>

definition is_ws :: "char \<Rightarrow> bool" where
  "is_ws c = (c = CHR 0x20 \<or> c = CHR 0x09 \<or> c = CHR 0x0A \<or> c = CHR 0x0D)"

definition skip_ws :: "string \<Rightarrow> string" where
  "skip_ws = dropWhile is_ws"

definition is_digit :: "char \<Rightarrow> bool" where
  "is_digit c = (48 \<le> (of_char c :: nat) \<and> (of_char c :: nat) \<le> 57)"

definition digit_val :: "char \<Rightarrow> nat" where
  "digit_val c = of_char c - 48"

definition hex_val :: "char \<Rightarrow> nat option" where
  "hex_val c =
     (let n = (of_char c :: nat) in
      if 48 \<le> n \<and> n \<le> 57 then Some (n - 48)
      else if 97 \<le> n \<and> n \<le> 102 then Some (n - 87)
      else if 65 \<le> n \<and> n \<le> 70 then Some (n - 55)
      else None)"

definition unescape :: "char \<Rightarrow> char option" where
  "unescape e =
     (if e = CHR 0x22 then Some (CHR 0x22)
      else if e = CHR 0x5C then Some (CHR 0x5C)
      else if e = CHR ''/'' then Some (CHR ''/'')
      else if e = CHR ''b'' then Some (CHR 0x08)
      else if e = CHR ''f'' then Some (CHR 0x0C)
      else if e = CHR ''n'' then Some (CHR 0x0A)
      else if e = CHR ''r'' then Some (CHR 0x0D)
      else if e = CHR ''t'' then Some (CHR 0x09)
      else None)"

definition hex4 :: "char \<Rightarrow> char \<Rightarrow> char \<Rightarrow> char \<Rightarrow> char option" where
  "hex4 a b c d =
     (case (hex_val a, hex_val b, hex_val c, hex_val d) of
        (Some w, Some x, Some y, Some z) \<Rightarrow>
          if w = 0 \<and> x = 0 then Some (char_of (16 * y + z)) else None
      | _ \<Rightarrow> None)"

fun parse_chars :: "string \<Rightarrow> (string \<times> string) option" where
  "parse_chars [] = None"
| "parse_chars (c # cs) =
     (if c = CHR 0x22 then Some ([], cs)
      else if c = CHR 0x5C then
        (case cs of
           [] \<Rightarrow> None
         | e # r \<Rightarrow>
             if e = CHR ''u'' then
               (case r of
                  a # b # c' # d # r' \<Rightarrow>
                    (case hex4 a b c' d of
                       None \<Rightarrow> None
                     | Some ch \<Rightarrow> map_option (\<lambda>(s, r''). (ch # s, r'')) (parse_chars r'))
                | _ \<Rightarrow> None)
             else
               (case unescape e of
                  None \<Rightarrow> None
                | Some ch \<Rightarrow> map_option (\<lambda>(s, r''). (ch # s, r'')) (parse_chars r)))
      else if (of_char c :: nat) < 32 then None
      else map_option (\<lambda>(s, r''). (c # s, r'')) (parse_chars cs))"

definition nat_of_digits :: "string \<Rightarrow> nat" where
  "nat_of_digits ds = foldl (\<lambda>n c. 10 * n + digit_val c) 0 ds"

definition parse_nat :: "string \<Rightarrow> (nat \<times> string) option" where
  "parse_nat s =
     (case s of
        [] \<Rightarrow> None
      | c # r \<Rightarrow>
          if c = CHR ''0'' then Some (0, r)
          else if is_digit c then Some (nat_of_digits (takeWhile is_digit s), dropWhile is_digit s)
          else None)"

definition parse_number :: "string \<Rightarrow> (tree \<times> string) option" where
  "parse_number s =
     (case s of
        [] \<Rightarrow> None
      | c # r \<Rightarrow>
          if c = CHR ''-'' then map_option (\<lambda>(n, r'). (TNum (- int n), r')) (parse_nat r)
          else map_option (\<lambda>(n, r'). (TNum (int n), r')) (parse_nat s))"

definition parse_literal :: "string \<Rightarrow> (tree \<times> string) option" where
  "parse_literal s =
     (if starts_with s ''true'' then Some (TBool True, drop 4 s)
      else if starts_with s ''false'' then Some (TBool False, drop 5 s)
      else if starts_with s ''null'' then Some (TNull, drop 4 s)
      else parse_number s)"

function parse_value :: "string \<Rightarrow> (tree \<times> string) option"
  and parse_elems :: "string \<Rightarrow> (tree list \<times> string) option"
  and parse_members :: "string \<Rightarrow> ((string \<times> tree) list \<times> string) option" where
  "parse_value s =
     (case skip_ws s of
        [] \<Rightarrow> None
      | c # r \<Rightarrow>
          if c = CHR ''['' then
            (case skip_ws r of
               [] \<Rightarrow> None
             | d # r' \<Rightarrow>
                 if d = CHR '']'' then Some (TArr [], r')
                 else if length r < length s
                   then map_option (\<lambda>(vs, r''). (TArr vs, r'')) (parse_elems r)
                 else None)
          else if c = CHR ''{'' then
            (case skip_ws r of
               [] \<Rightarrow> None
             | d # r' \<Rightarrow>
                 if d = CHR ''}'' then Some (TObj [], r')
                 else if length r < length s
                   then map_option (\<lambda>(ms, r''). (TObj (assign_props [] ms), r'')) (parse_members r)
                 else None)
          else if c = CHR 0x22 then map_option (\<lambda>(k, r''). (TStr k, r'')) (parse_chars r)
          else parse_literal (c # r))"
| "parse_elems s =
     (case parse_value s of
        None \<Rightarrow> None
      | Some (v, r) \<Rightarrow>
          (case skip_ws r of
             [] \<Rightarrow> None
           | d # r' \<Rightarrow>
               if d = CHR '']'' then Some ([v], r')
               else if d = CHR '','' \<and> length r' < length s
                 then map_option (\<lambda>(vs, r''). (v # vs, r'')) (parse_elems r')
               else None))"
| "parse_members s =
     (case skip_ws s of
        [] \<Rightarrow> None
      | q # r \<Rightarrow>
          if q \<noteq> CHR 0x22 then None
          else
            (case parse_chars r of
               None \<Rightarrow> None
             | Some (k, r1) \<Rightarrow>
                 (case skip_ws r1 of
                    [] \<Rightarrow> None
                  | col # r2 \<Rightarrow>
                      if col = CHR '':'' \<and> length r2 < length s then
                        (case parse_value r2 of
                           None \<Rightarrow> None
                         | Some (v, r3) \<Rightarrow>
                             (case skip_ws r3 of
                                [] \<Rightarrow> None
                              | d # r4 \<Rightarrow>
                                  if d = CHR ''}'' then Some ([(k, v)], r4)
                                  else if d = CHR '','' \<and> length r4 < length s
                                    then map_option (\<lambda>(ms, r''). ((k, v) # ms, r'')) (parse_members r4)
                                  else None))
                      else None)))"
  by pat_completeness auto
termination
  by (relation "measure (\<lambda>x. case x of
          Inl s \<Rightarrow> 2 * length s
        | Inr (Inl s) \<Rightarrow> 2 * length s + 1
        | Inr (Inr s) \<Rightarrow> 2 * length s + 1)") auto

declare parse_value.simps [simp del] parse_elems.simps [simp del] parse_members.simps [simp del]

definition JSON_parse_tree :: "string \<Rightarrow> error + tree" where
  "JSON_parse_tree s =
     (case parse_value s of
        None \<Rightarrow> Inl SyntaxError
      | Some (t, r) \<Rightarrow> if skip_ws r = [] then Inr t else Inl SyntaxError)"

text \<open>
  \<^verbatim>\<open>JSON.parse\<close> builds new objects: the parsed tree is allocated at fresh addresses,
  children before their parent.
\<close>

fun alloc :: "heap \<Rightarrow> tree \<Rightarrow> heap \<times> val"
  and alloc_elems :: "heap \<Rightarrow> tree list \<Rightarrow> heap \<times> val list"
  and alloc_members :: "heap \<Rightarrow> (string \<times> tree) list \<Rightarrow> heap \<times> (string \<times> val) list" where
  "alloc h TUndefined = (h, VUndefined)"
| "alloc h TNull = (h, VNull)"
| "alloc h (TBool b) = (h, VBool b)"
| "alloc h (TNum n) = (h, VNum n)"
| "alloc h (TStr s) = (h, VStr s)"
| "alloc h (TBigInt n) = (h, VBigInt n)"
| "alloc h (TFun f) = (h, VFun f)"
| "alloc h TCircular = (h, VUndefined)"
| "alloc h (TArr ts) = (case alloc_elems h ts of (h', vs) \<Rightarrow> (h' @ [Array vs], VRef (length h')))"
| "alloc h (TObj fs) = (case alloc_members h fs of (h', ms) \<Rightarrow> (h' @ [Object ms], VRef (length h')))"
| "alloc_elems h [] = (h, [])"
| "alloc_elems h (t # ts) =
     (case alloc h t of (h1, v) \<Rightarrow>
        (case alloc_elems h1 ts of (h2, vs) \<Rightarrow> (h2, v # vs)))"
| "alloc_members h [] = (h, [])"
| "alloc_members h ((k, t) # fs) =
     (case alloc h t of (h1, v) \<Rightarrow>
        (case alloc_members h1 fs of (h2, ms) \<Rightarrow> (h2, (k, v) # ms)))"

definition JSON_parse :: "heap \<Rightarrow> string \<Rightarrow> error + heap \<times> val" where
  "JSON_parse h s = (case JSON_parse_tree s of Inl e \<Rightarrow> Inl e | Inr t \<Rightarrow> Inr (alloc h t))"


section \<open>The redaction primitive (fast-redact)\<close>

text \<open>
  Modelled from the spec: the redaction primitive is the fast-redact package, a dependency
  whose source is not among the repository's files. Section 4.1 of the specification gives
  its contract: rules are compiled once into a function; with \<^verbatim>\<open>serialize: false\<close> that
  function works on parsed structures, mutates its argument in place and returns it; a
  payload that matches no rule is returned unchanged; a path that does not exist is a
  no-op. What the specification leaves open (the default censor, strict mode, the
  \<^verbatim>\<open>remove\<close> option, the default serializer) follows the package's documentation.

  A path is a list of segments (a property key or the wildcard); the censor is a value or
  a function of the redacted value. Censors are primitive-valued (the default is the
  string \<^verbatim>\<open>[REDACTED]\<close>): an object used as a censor is outside the model. For each path
  the redactor walks from the root; where the path exists it overwrites the value in place
  with the censor. A key path skips a final value that is \<^verbatim>\<open>null\<close> or \<^verbatim>\<open>undefined\<close>.
\<close>

datatype seg = Key string | Wildcard

type_synonym path = "seg list"

datatype prim = PUndefined | PNull | PBool bool | PNum int | PStr string

fun val_of :: "prim \<Rightarrow> val" where
  "val_of PUndefined = VUndefined"
| "val_of PNull = VNull"
| "val_of (PBool b) = VBool b"
| "val_of (PNum n) = VNum n"
| "val_of (PStr s) = VStr s"

datatype censor = CensorValue prim | CensorFun "val \<Rightarrow> prim"

datatype serialize_opt = SerBool bool | SerFun "heap \<Rightarrow> val \<Rightarrow> val"

text \<open>
  \<^verbatim>\<open>ExtendedRedactOptions\<close>: the options of the redactor and \<^verbatim>\<open>globalReplace\<close>. Every
  property is optional; \<open>None\<close> is an absent property.
\<close>

record redact_config =
  opt_paths :: "path list option"
  opt_censor :: "censor option"
  opt_serialize :: "serialize_opt option"
  opt_remove :: "bool option"
  opt_strict :: "bool option"
  opt_globalReplace :: "(string \<Rightarrow> string) option"

definition apply_censor :: "censor \<Rightarrow> val \<Rightarrow> val" where
  "apply_censor c v = (case c of CensorValue x \<Rightarrow> val_of x | CensorFun f \<Rightarrow> val_of (f v))"

fun matches :: "seg \<Rightarrow> string \<Rightarrow> bool" where
  "matches (Key k) k' = (k = k')"
| "matches Wildcard k' = True"

fun redactable :: "seg \<Rightarrow> val \<Rightarrow> bool" where
  "redactable (Key k) v = (v \<noteq> VNull \<and> v \<noteq> VUndefined)"
| "redactable Wildcard v = True"

definition censor_prop :: "censor \<Rightarrow> seg \<Rightarrow> string \<times> val \<Rightarrow> val" where
  "censor_prop c s p =
     (if matches s (fst p) \<and> redactable s (snd p) then apply_censor c (snd p) else snd p)"

definition censor_cell :: "censor \<Rightarrow> seg \<Rightarrow> obj \<Rightarrow> obj" where
  "censor_cell c s cell =
     (case cell of
        Object fs \<Rightarrow> Object (map (\<lambda>p. (fst p, censor_prop c s p)) fs)
      | Array vs \<Rightarrow> Array (map (censor_prop c s) (cell_props (Array vs))))"

definition selected :: "seg \<Rightarrow> obj \<Rightarrow> val list" where
  "selected s cell = map snd (filter (\<lambda>p. matches s (fst p)) (cell_props cell))"

fun redact_path :: "censor \<Rightarrow> path \<Rightarrow> heap \<Rightarrow> val \<Rightarrow> heap" where
  "redact_path c [] h v = h"
| "redact_path c [s] h v =
     (case v of
        VRef a \<Rightarrow> (case lookup h a of Some cell \<Rightarrow> h[a := censor_cell c s cell] | None \<Rightarrow> h)
      | _ \<Rightarrow> h)"
| "redact_path c (s # s' # p) h v =
     (case v of
        VRef a \<Rightarrow>
          (case lookup h a of
             Some cell \<Rightarrow> foldl (\<lambda>h' v'. redact_path c (s' # p) h' v') h (selected s cell)
           | None \<Rightarrow> h)
      | _ \<Rightarrow> h)"

definition redact_paths :: "censor \<Rightarrow> path list \<Rightarrow> heap \<Rightarrow> val \<Rightarrow> heap" where
  "redact_paths c ps h v = foldl (\<lambda>h' p. redact_path c p h' v) h ps"

text \<open>
  The \<^verbatim>\<open>serialize\<close> option as the factory resolves it: \<^verbatim>\<open>false\<close> stays, a function is
  kept, anything else (also an absent option) is \<^verbatim>\<open>JSON.stringify\<close>.
\<close>

datatype serializer = NoSerialize | Stringify | Custom "heap \<Rightarrow> val \<Rightarrow> val"

definition resolve_serialize :: "serialize_opt option \<Rightarrow> serializer" where
  "resolve_serialize s =
     (case s of
        None \<Rightarrow> Stringify
      | Some (SerBool b) \<Rightarrow> if b then Stringify else NoSerialize
      | Some (SerFun f) \<Rightarrow> Custom f)"

fun is_Stringify :: "serializer \<Rightarrow> bool" where
  "is_Stringify Stringify = True"
| "is_Stringify s = False"

type_synonym redactor = "heap \<Rightarrow> val \<Rightarrow> error + heap \<times> val"

text \<open>
  What a redactor returns for the object \<open>v\<close>, redacted in the heap \<open>h'\<close>: with
  \<^verbatim>\<open>serialize: false\<close> the mutated object itself; otherwise the serialized text, after which
  the object is restored to its state in \<open>h\<close>.
\<close>

definition serialize_result :: "serializer \<Rightarrow> heap \<Rightarrow> heap \<Rightarrow> val \<Rightarrow> error + heap \<times> val" where
  "serialize_result ser h h' v =
     (case ser of
        NoSerialize \<Rightarrow> Inr (h', v)
      | Stringify \<Rightarrow>
          (case JSON_stringify h' v of
             Inl e \<Rightarrow> Inl e
           | Inr None \<Rightarrow> Inr (h, VUndefined)
           | Inr (Some s) \<Rightarrow> Inr (h, VStr s))
      | Custom f \<Rightarrow> Inr (h, f h' v))"

text \<open>
  The factory \<^verbatim>\<open>fastRedact(opts)\<close>. The paths are deduplicated; \<^verbatim>\<open>remove\<close> is refused
  unless the serializer is \<^verbatim>\<open>JSON.stringify\<close>; with no paths the result is the serializer
  itself, or the identity when \<^verbatim>\<open>serialize\<close> is \<^verbatim>\<open>false\<close>; a compiled redactor throws on a
  primitive in strict mode (the default).
\<close>

definition fastRedact :: "redact_config \<Rightarrow> error + redactor" where
  "fastRedact opts =
     (let paths = rev (remdups (rev (case opt_paths opts of None \<Rightarrow> [] | Some ps \<Rightarrow> ps)));
          serialize = resolve_serialize (opt_serialize opts);
          remove = (opt_remove opts = Some True);
          censor = (if remove then CensorValue PUndefined
                    else case opt_censor opts of
                           None \<Rightarrow> CensorValue (PStr ''[REDACTED]'')
                         | Some c \<Rightarrow> c);
          strict = (case opt_strict opts of None \<Rightarrow> True | Some b \<Rightarrow> b)
      in if remove \<and> \<not> is_Stringify serialize then Inl RedactError
         else if paths = [] then Inr (\<lambda>h v. serialize_result serialize h h v)
         else Inr (\<lambda>h v.
                (case v of
                   VRef a \<Rightarrow> serialize_result serialize h (redact_paths censor paths h v) v
                 | _ \<Rightarrow> if strict then Inl RedactError else serialize_result serialize h h v)))"


section \<open>The emit interceptor and the logger factory\<close>

text \<open>
  The world of a logger: the heap, and the records forwarded to the engine's original
  \<^verbatim>\<open>_emit\<close> (the physical write), oldest first. The record handed to the interceptor is
  the object the engine has just built for this log call; its properties refer to the
  caller's objects.
\<close>

record world =
  w_heap :: heap
  w_written :: "addr list"

definition reserved :: "string list" where
  "reserved = [''v'', ''level'', ''name'', ''hostname'', ''pid'', ''time'', ''src'']"

text \<open>\<^verbatim>\<open>const { v, level, name, hostname, pid, time, src, ...rest } = logRecord\<close>\<close>

definition rest_of :: "(string \<times> val) list \<Rightarrow> (string \<times> val) list" where
  "rest_of fs = filter (\<lambda>p. fst p \<notin> set reserved) fs"

text \<open>\<^verbatim>\<open>redactConfig?.globalReplace ?? ((value: string) => value)\<close>\<close>

definition globalReplace_of :: "redact_config option \<Rightarrow> string \<Rightarrow> string" where
  "globalReplace_of redactConfig =
     (case redactConfig of
        None \<Rightarrow> (\<lambda>text. text)
      | Some c \<Rightarrow> (case opt_globalReplace c of None \<Rightarrow> (\<lambda>text. text) | Some g \<Rightarrow> g))"

text \<open>\<^verbatim>\<open>Object.assign(target, source)\<close> for a target that is a plain object.\<close>

definition Object_assign :: "heap \<Rightarrow> addr \<Rightarrow> val \<Rightarrow> heap" where
  "Object_assign h target source =
     (case lookup h target of
        Some (Object fs) \<Rightarrow> h[target := Object (assign_props fs (own_props h source))]
      | _ \<Rightarrow> h)"

text \<open>
  The \<^verbatim>\<open>apply\<close> trap of the proxy around \<^verbatim>\<open>logger._emit\<close>. An exception of
  \<^verbatim>\<open>JSON.stringify\<close>, \<^verbatim>\<open>JSON.parse\<close> or \<^verbatim>\<open>redact\<close> leaves the trap before
  \<^verbatim>\<open>Reflect.apply\<close> is reached. The engine only ever passes a record object; any other
  argument is outside the model (\<open>NotARecord\<close>). The temporary \<^verbatim>\<open>rest\<close> is an object, so
  its serialization is a string (the lemma \<open>stringify_cell_defined\<close>).
\<close>

definition proxy_emit :: "redact_config option \<Rightarrow> redactor \<Rightarrow> world \<Rightarrow> addr \<Rightarrow> error + world" where
  "proxy_emit redactConfig redact w logRecord =
     (case lookup (w_heap w) logRecord of
        Some (Object fs) \<Rightarrow>
          (case JSON_stringify_cell (w_heap w) (Object (rest_of fs)) of
             Inl e \<Rightarrow> Inl e
           | Inr None \<Rightarrow> Inl TypeError
           | Inr (Some text) \<Rightarrow>
               (case JSON_parse (w_heap w) (globalReplace_of redactConfig text) of
                  Inl e \<Rightarrow> Inl e
                | Inr (h2, parsed) \<Rightarrow>
                    (case redact h2 parsed of
                       Inl e \<Rightarrow> Inl e
                     | Inr (h3, redacted) \<Rightarrow>
                         Inr \<lparr>w_heap = Object_assign h3 logRecord redacted,
                              w_written = w_written w @ [logRecord]\<rparr>)))
      | _ \<Rightarrow> Inl NotARecord)"

text \<open>\<^verbatim>\<open>{ ...redactConfig, serialize: false }\<close>; spreading \<^verbatim>\<open>undefined\<close> adds nothing.\<close>

definition spread_serialize_false :: "redact_config option \<Rightarrow> redact_config" where
  "spread_serialize_false redactConfig =
     (case redactConfig of
        None \<Rightarrow> \<lparr>opt_paths = None, opt_censor = None, opt_serialize = None, opt_remove = None,
                  opt_strict = None, opt_globalReplace = None\<rparr>
      | Some c \<Rightarrow> c)
     \<lparr>opt_serialize := Some (SerBool False)\<rparr>"

record logger =
  lg_settings :: logger_settings
  lg_emit :: "world \<Rightarrow> addr \<Rightarrow> error + world"

text \<open>
  \<^verbatim>\<open>createLogger\<close>: the engine is built from the settings, the redactor is compiled, and
  \<^verbatim>\<open>_emit\<close> is replaced by the proxy. An error of the redactor's factory leaves
  \<^verbatim>\<open>createLogger\<close>.
\<close>

definition createLogger :: "env \<Rightarrow> log_level option \<Rightarrow> redact_config option \<Rightarrow> error + logger" where
  "createLogger e level redactConfig =
     (case fastRedact (spread_serialize_false redactConfig) of
        Inl err \<Rightarrow> Inl err
      | Inr redact \<Rightarrow>
          Inr \<lparr>lg_settings = createLogger_settings e level,
               lg_emit = proxy_emit redactConfig redact\<rparr>)"

text \<open>A logger is made and one record is emitted through it.\<close>

definition log_record ::
  "env \<Rightarrow> log_level option \<Rightarrow> redact_config option \<Rightarrow> world \<Rightarrow> addr \<Rightarrow> error + world" where
  "log_record e level redactConfig w logRecord =
     (case createLogger e level redactConfig of
        Inl err \<Rightarrow> Inl err
      | Inr lg \<Rightarrow> lg_emit lg w logRecord)"


section \<open>Notions used to state the properties\<close>


text \<open>Where a printed value may end: at the end of the text or before a separator.\<close>

definition sep :: "string \<Rightarrow> bool" where
  "sep r = (case r of [] \<Rightarrow> True | c # _ \<Rightarrow> c = CHR '','' \<or> c = CHR '']'' \<or> c = CHR ''}'')"



text \<open>
  Addresses at or above \<open>n\<close>: the objects allocated after the heap had \<open>n\<close> cells. A heap is
  closed above \<open>n\<close> when those objects refer to such objects only.
\<close>

definition cell_vals :: "obj \<Rightarrow> val list" where
  "cell_vals c = map snd (cell_props c)"

fun above :: "nat \<Rightarrow> val \<Rightarrow> bool" where
  "above n (VRef a) = (n \<le> a)"
| "above n v = True"

definition closed_above :: "nat \<Rightarrow> heap \<Rightarrow> bool" where
  "closed_above n h = (\<forall>a. n \<le> a \<and> a < length h \<longrightarrow> list_all (above n) (cell_vals (h ! a)))"

text \<open>
  The contract of a redactor compiled with \<^verbatim>\<open>serialize: false\<close>: it returns its argument,
  it changes no object below \<open>n\<close> when started on an object above \<open>n\<close> in a heap closed above
  \<open>n\<close>, and it neither adds nor removes a key of any object.
\<close>

definition redactor_ok :: "redactor \<Rightarrow> bool" where
  "redactor_ok redact =
     (\<forall>n h v h' v'. closed_above n h \<and> above n v \<and> redact h v = Inr (h', v') \<longrightarrow>
        v' = v \<and> length h' = length h \<and> closed_above n h' \<and>
        (\<forall>a < n. a < length h \<longrightarrow> h' ! a = h ! a) \<and>
        (\<forall>a < length h. map fst (cell_props (h' ! a)) = map fst (cell_props (h ! a))))"

text \<open>
  A well-formed heap has no dangling reference; an object is unreferenced when no object
  of the heap holds a reference to it.
\<close>

fun wf_val :: "heap \<Rightarrow> val \<Rightarrow> bool" where
  "wf_val h (VRef a) = (a < length h)"
| "wf_val h v = True"

definition wf_heap :: "heap \<Rightarrow> bool" where
  "wf_heap h = list_all (\<lambda>c. list_all (wf_val h) (cell_vals c)) h"

definition unreferenced :: "heap \<Rightarrow> addr \<Rightarrow> bool" where
  "unreferenced h r = list_all (\<lambda>c. list_all (\<lambda>v. v \<noteq> VRef r) (cell_vals c)) h"

text \<open>
  What a step on the heap preserves: the number of objects, every object below \<open>n\<close>, and
  the keys of every object.
\<close>

definition preserves :: "nat \<Rightarrow> heap \<Rightarrow> heap \<Rightarrow> bool" where
  "preserves n h h' =
     (length h' = length h \<and>
      (\<forall>a < n. a < length h \<longrightarrow> h' ! a = h ! a) \<and>
      (\<forall>a < length h. map fst (cell_props (h' ! a)) = map fst (cell_props (h ! a))))"


text \<open>
  The payload as the specification words it, \<^verbatim>\<open>redact(parse(globalReplace(serialize(rest))))\<close>:
  the fields outside the reserved set are serialized to text, the configured global
  replace function (the identity when none is configured) is applied to the whole text,
  the result is parsed again, and the path-based redactor runs on the parsed structure.
\<close>

definition spec_transform :: "redact_config option \<Rightarrow> string \<Rightarrow> string" where
  "spec_transform redactConfig text =
     (if redactConfig = None then text
      else if opt_globalReplace (the redactConfig) = None then text
      else the (opt_globalReplace (the redactConfig)) text)"

definition spec_payload ::
  "redact_config option \<Rightarrow> redactor \<Rightarrow> heap \<Rightarrow> (string \<times> val) list \<Rightarrow> error + heap \<times> val" where
  "spec_payload redactConfig redact h fs =
     (case JSON_stringify_cell h (Object (filter (\<lambda>p. fst p \<notin> set reserved) fs)) of
        Inl err \<Rightarrow> Inl err
      | Inr None \<Rightarrow> Inl TypeError
      | Inr (Some text) \<Rightarrow>
          (case JSON_parse h (spec_transform redactConfig text) of
             Inl err \<Rightarrow> Inl err
           | Inr (h2, parsed) \<Rightarrow> redact h2 parsed))"




section \<open>The JSON round trip\<close>



















lemma sep_simps [simp]: "sep []" "sep (CHR '','' # r)" "sep (CHR '']'' # r)" "sep (CHR ''}'' # r)"
  by (simp_all add: sep_def)










lemma show_elems_sep [simp]: "sep (show_elems ts @ CHR '']'' # r)"
  by (cases ts) simp_all

lemma show_members_head: "show_members fs = [] \<or> (\<exists>cs. show_members fs = CHR '','' # cs)"
proof (induction fs)
  case Nil
  show ?case by simp
next
  case (Cons m fs)
  obtain k t where m: "m = (k, t)" by (cases m)
  show ?case using Cons unfolding m by (cases "omitted t") simp_all
qed


lemma show_members_sep [simp]: "sep (show_members fs @ CHR ''}'' # r)"
  using show_members_head [of fs] by auto





text \<open>
  Every parser consumes input, so the length tests in the parsers never fail.
\<close>

lemma length_skip_ws: "length (skip_ws s) \<le> length s"
  by (simp add: skip_ws_def length_dropWhile_le)

lemma skip_ws_Cons_length: "skip_ws s = c # r \<Longrightarrow> length r < length s"
  using length_skip_ws [of s] by simp

lemma parse_chars_consumes: "parse_chars s = Some (k, r) \<Longrightarrow> length r < length s"
proof (induction "length s" arbitrary: s k r rule: less_induct)
  case less
  show ?case
  proof (cases s)
    case Nil
    with less.prems show ?thesis by simp
  next
    case (Cons c cs)
    have ih: "parse_chars s' = Some (k', r') \<Longrightarrow> length s' < length s \<Longrightarrow> length r' < length s'"
      for s' k' r'
      using less.hyps by blast
    from less.prems Cons show ?thesis
      by (auto split: if_splits list.splits option.splits dest!: ih)
  qed
qed

lemma parse_nat_consumes: "parse_nat s = Some (n, r) \<Longrightarrow> length r < length s"
  by (auto simp: parse_nat_def split: list.splits if_splits)
     (metis dropWhile.simps(2) length_dropWhile_le less_Suc_eq_le)

lemma parse_number_consumes: "parse_number s = Some (v, r) \<Longrightarrow> length r < length s"
  by (auto simp: parse_number_def split: list.splits if_splits dest!: parse_nat_consumes)

lemma parse_literal_consumes: "parse_literal s = Some (v, r) \<Longrightarrow> length r < length s"
  by (cases s)
     (auto simp: parse_literal_def starts_with_def split: if_splits dest!: parse_number_consumes)

lemma parse_consumes:
  "\<forall>v r. parse_value s = Some (v, r) \<longrightarrow> length r < length s"
  "\<forall>vs r. parse_elems s1 = Some (vs, r) \<longrightarrow> length r < length s1"
  "\<forall>ms r. parse_members s2 = Some (ms, r) \<longrightarrow> length r < length s2"
proof (induction s and s1 and s2 rule: parse_value_parse_elems_parse_members.induct)
  case (1 s)
  show ?case
  proof (intro allI impI)
    fix v r assume p: "parse_value s = Some (v, r)"
    show "length r < length s"
    proof (cases "skip_ws s")
      case Nil
      with p show ?thesis by (subst (asm) parse_value.simps) simp
    next
      case (Cons c r0)
      note sk = skip_ws_Cons_length [OF Cons]
      show ?thesis
      proof (cases "c = CHR ''[''")
        case True
        show ?thesis
        proof (cases "skip_ws r0")
          case Nil
          with p Cons True show ?thesis by (subst (asm) parse_value.simps) simp
        next
          case inner: (Cons d r')
          note sk' = skip_ws_Cons_length [OF inner]
          show ?thesis
          proof (cases "d = CHR '']''")
            case True
            with p Cons \<open>c = CHR ''[''\<close> inner sk sk' show ?thesis
              by (subst (asm) parse_value.simps) auto
          next
            case False
            with p Cons \<open>c = CHR ''[''\<close> inner sk obtain vs where
              "parse_elems r0 = Some (vs, r)"
              by (subst (asm) parse_value.simps) (auto split: if_splits)
            with "1.IH"(1) Cons \<open>c = CHR ''[''\<close> inner False sk show ?thesis
              by fastforce
          qed
        qed
      next
        case notarr: False
        show ?thesis
        proof (cases "c = CHR ''{''")
          case True
          show ?thesis
          proof (cases "skip_ws r0")
            case Nil
            with p Cons notarr True show ?thesis by (subst (asm) parse_value.simps) simp
          next
            case inner: (Cons d r')
            note sk' = skip_ws_Cons_length [OF inner]
            show ?thesis
            proof (cases "d = CHR ''}''")
              case True
              with p Cons notarr \<open>c = CHR ''{''\<close> inner sk sk' show ?thesis
                by (subst (asm) parse_value.simps) auto
            next
              case False
              with p Cons notarr \<open>c = CHR ''{''\<close> inner sk obtain ms where
                "parse_members r0 = Some (ms, r)"
                by (subst (asm) parse_value.simps) (auto split: if_splits)
              with "1.IH"(2) Cons notarr \<open>c = CHR ''{''\<close> inner False sk show ?thesis
                by fastforce
            qed
          qed
        next
          case notobj: False
          from p Cons notarr notobj have
            "(c = CHR 0x22 \<and> (\<exists>k. parse_chars r0 = Some (k, r))) \<or> parse_literal (c # r0) = Some (v, r)"
            by (subst (asm) parse_value.simps) (auto split: if_splits)
          then show ?thesis
            using sk by (auto dest!: parse_chars_consumes parse_literal_consumes)
        qed
      qed
    qed
  qed
next
  case (2 s)
  show ?case
  proof (intro allI impI)
    fix vs r assume p: "parse_elems s = Some (vs, r)"
    then obtain v r1 where v: "parse_value s = Some (v, r1)"
      by (subst (asm) parse_elems.simps) (auto split: option.splits)
    with "2.IH"(1) have l1: "length r1 < length s" by simp
    from p v obtain d r' where sk: "skip_ws r1 = d # r'"
      by (subst (asm) parse_elems.simps) (auto split: list.splits)
    note l2 = skip_ws_Cons_length [OF sk]
    show "length r < length s"
    proof (cases "d = CHR '']''")
      case True
      with p v sk l1 l2 show ?thesis by (subst (asm) parse_elems.simps) auto
    next
      case False
      with p v sk obtain vs' where c: "d = CHR '',''" "length r' < length s"
        and rec: "parse_elems r' = Some (vs', r)"
        by (subst (asm) parse_elems.simps) (auto split: if_splits)
      from "2.IH"(2) [OF v refl sk False] c rec show ?thesis by fastforce
    qed
  qed
next
  case (3 s)
  show ?case
  proof (intro allI impI)
    fix ms r assume p: "parse_members s = Some (ms, r)"
    then obtain q r0 where sk0: "skip_ws s = q # r0" and q: "q = CHR 0x22"
      by (subst (asm) parse_members.simps) (auto split: list.splits if_splits)
    from p sk0 q obtain k r1 where key: "parse_chars r0 = Some (k, r1)"
      by (subst (asm) parse_members.simps) (auto split: option.splits)
    from p sk0 q key obtain col r2 where sk1: "skip_ws r1 = col # r2"
      by (subst (asm) parse_members.simps) (auto split: list.splits)
    from p sk0 q key sk1 have col: "col = CHR '':''" and g2: "length r2 < length s"
      by (subst (asm) parse_members.simps, auto split: if_splits)+
    from p sk0 q key sk1 col g2 obtain v r3 where val: "parse_value r2 = Some (v, r3)"
      by (subst (asm) parse_members.simps) (auto split: option.splits)
    have l3: "length r3 < length r2"
      using "3.IH"(1) [OF sk0 _ key refl sk1] q col g2 val by fastforce
    from p sk0 q key sk1 col g2 val obtain d r4 where sk3: "skip_ws r3 = d # r4"
      by (subst (asm) parse_members.simps) (auto split: list.splits)
    note l4 = skip_ws_Cons_length [OF sk3]
    show "length r < length s"
    proof (cases "d = CHR ''}''")
      case True
      with p sk0 q key sk1 col g2 val sk3 l3 l4 show ?thesis
        by (subst (asm) parse_members.simps) auto
    next
      case False
      with p sk0 q key sk1 col g2 val sk3 obtain ms' where c: "d = CHR '',''" "length r4 < length s"
        and rec: "parse_members r4 = Some (ms', r)"
        by (subst (asm) parse_members.simps) (auto split: if_splits)
      have "length r < length r4"
        using "3.IH"(2) [OF sk0 _ key refl sk1 _ val refl sk3 False] q col g2 c rec
        by fastforce
      with c show ?thesis by simp
    qed
  qed
qed

text \<open>The same parsers, without the length tests.\<close>

lemma parse_value_unguarded:
  "parse_value s =
     (case skip_ws s of
        [] \<Rightarrow> None
      | c # r \<Rightarrow>
          if c = CHR ''['' then
            (case skip_ws r of
               [] \<Rightarrow> None
             | d # r' \<Rightarrow>
                 if d = CHR '']'' then Some (TArr [], r')
                 else map_option (\<lambda>(vs, r''). (TArr vs, r'')) (parse_elems r))
          else if c = CHR ''{'' then
            (case skip_ws r of
               [] \<Rightarrow> None
             | d # r' \<Rightarrow>
                 if d = CHR ''}'' then Some (TObj [], r')
                 else map_option (\<lambda>(ms, r''). (TObj (assign_props [] ms), r'')) (parse_members r))
          else if c = CHR 0x22 then map_option (\<lambda>(k, r''). (TStr k, r'')) (parse_chars r)
          else parse_literal (c # r))"
  by (subst parse_value.simps)
     (auto split: list.splits dest: skip_ws_Cons_length)

lemma parse_elems_unguarded:
  "parse_elems s =
     (case parse_value s of
        None \<Rightarrow> None
      | Some (v, r) \<Rightarrow>
          (case skip_ws r of
             [] \<Rightarrow> None
           | d # r' \<Rightarrow>
               if d = CHR '']'' then Some ([v], r')
               else if d = CHR '','' then map_option (\<lambda>(vs, r''). (v # vs, r'')) (parse_elems r')
               else None))"
proof (cases "parse_value s")
  case None
  then show ?thesis by (subst parse_elems.simps) simp
next
  case (Some a)
  obtain v r where a: "a = (v, r)" by (cases a)
  from Some a parse_consumes(1) [of s] have "length r < length s" by simp
  then have "length r' < length s" if "skip_ws r = d # r'" for d r'
    using skip_ws_Cons_length [OF that] by simp
  with Some a show ?thesis
    by (subst parse_elems.simps) (auto split: list.splits)
qed

lemma parse_members_unguarded:
  "parse_members s =
     (case skip_ws s of
        [] \<Rightarrow> None
      | q # r \<Rightarrow>
          if q \<noteq> CHR 0x22 then None
          else
            (case parse_chars r of
               None \<Rightarrow> None
             | Some (k, r1) \<Rightarrow>
                 (case skip_ws r1 of
                    [] \<Rightarrow> None
                  | col # r2 \<Rightarrow>
                      if col = CHR '':'' then
                        (case parse_value r2 of
                           None \<Rightarrow> None
                         | Some (v, r3) \<Rightarrow>
                             (case skip_ws r3 of
                                [] \<Rightarrow> None
                              | d # r4 \<Rightarrow>
                                  if d = CHR ''}'' then Some ([(k, v)], r4)
                                  else if d = CHR '',''
                                    then map_option (\<lambda>(ms, r''). ((k, v) # ms, r'')) (parse_members r4)
                                  else None))
                      else None)))"
proof -
  have g2: "length r2 < length s"
    if "skip_ws s = q # r" "parse_chars r = Some (k, r1)" "skip_ws r1 = col # r2" for q r k r1 col r2
    using skip_ws_Cons_length [OF that(1)] parse_chars_consumes [OF that(2)]
      skip_ws_Cons_length [OF that(3)] by simp
  have g4: "length r4 < length s"
    if "skip_ws s = q # r" "parse_chars r = Some (k, r1)" "skip_ws r1 = col # r2"
      "parse_value r2 = Some (v, r3)" "skip_ws r3 = d # r4" for q r k r1 col r2 v r3 d r4
    using g2 [OF that(1-3)] parse_consumes(1) [of r2] that(4) skip_ws_Cons_length [OF that(5)]
    by fastforce
  show ?thesis
    by (subst parse_members.simps)
       (auto split: list.splits option.splits dest: g2 g4)
qed


section \<open>Allocation and redaction on the heap\<close>


lemma cell_vals_simps [simp]:
  "cell_vals (Object fs) = map snd fs"
  "cell_vals (Array vs) = vs"
  by (simp_all add: cell_vals_def cell_props_def)

lemma keys_Array [simp]: "map fst (cell_props (Array vs)) = map show_nat [0..<length vs]"
  by (simp add: cell_props_def)

lemma cell_props_Object [simp]: "cell_props (Object fs) = fs"
  by (simp add: cell_props_def)

lemma closed_above_snoc:
  "closed_above n h \<Longrightarrow> list_all (above n) (cell_vals c) \<Longrightarrow> closed_above n (h @ [c])"
  by (auto simp: closed_above_def nth_append)

lemma alloc_fresh:
  "(\<forall>n h' v. alloc h t = (h', v) \<longrightarrow> n \<le> length h \<longrightarrow> closed_above n h \<longrightarrow>
      (\<exists>ext. h' = h @ ext) \<and> above n v \<and> closed_above n h')"
  "(\<forall>n h' vs. alloc_elems h ts = (h', vs) \<longrightarrow> n \<le> length h \<longrightarrow> closed_above n h \<longrightarrow>
      (\<exists>ext. h' = h @ ext) \<and> list_all (above n) vs \<and> closed_above n h')"
  "(\<forall>n h' ms. alloc_members h fs = (h', ms) \<longrightarrow> n \<le> length h \<longrightarrow> closed_above n h \<longrightarrow>
      (\<exists>ext. h' = h @ ext) \<and> list_all (above n) (map snd ms) \<and> closed_above n h' \<and>
      map fst ms = map fst fs)"
proof (induction h t and h ts and h fs rule: alloc_alloc_elems_alloc_members.induct)
  case (9 h ts)
  show ?case
  proof (intro allI impI)
    fix n h' v
    assume a: "alloc h (TArr ts) = (h', v)" and n: "n \<le> length h" and c: "closed_above n h"
    obtain h1 vs where e: "alloc_elems h ts = (h1, vs)" by (cases "alloc_elems h ts")
    with 9 n c obtain ext where ext: "h1 = h @ ext" and ab: "list_all (above n) vs"
      and c1: "closed_above n h1" by blast
    from a e have h': "h' = h1 @ [Array vs]" and v: "v = VRef (length h1)" by simp_all
    from ext n have "above n v" by (simp add: v)
    moreover have "closed_above n h'" unfolding h' using c1 ab by (intro closed_above_snoc) simp_all
    moreover have "\<exists>ext. h' = h @ ext" using ext h' by simp
    ultimately show "(\<exists>ext. h' = h @ ext) \<and> above n v \<and> closed_above n h'" by simp
  qed
next
  case (10 h fs)
  show ?case
  proof (intro allI impI)
    fix n h' v
    assume a: "alloc h (TObj fs) = (h', v)" and n: "n \<le> length h" and c: "closed_above n h"
    obtain h1 ms where e: "alloc_members h fs = (h1, ms)" by (cases "alloc_members h fs")
    with 10 n c obtain ext where ext: "h1 = h @ ext" and ab: "list_all (above n) (map snd ms)"
      and c1: "closed_above n h1" by blast
    from a e have h': "h' = h1 @ [Object ms]" and v: "v = VRef (length h1)" by simp_all
    from ext n have "above n v" by (simp add: v)
    moreover have "closed_above n h'" unfolding h' using c1 ab by (intro closed_above_snoc) simp_all
    moreover have "\<exists>ext. h' = h @ ext" using ext h' by simp
    ultimately show "(\<exists>ext. h' = h @ ext) \<and> above n v \<and> closed_above n h'" by simp
  qed
next
  case (12 h t ts)
  show ?case
  proof (intro allI impI)
    fix n h' vs
    assume a: "alloc_elems h (t # ts) = (h', vs)" and n: "n \<le> length h" and c: "closed_above n h"
    obtain h1 v where e1: "alloc h t = (h1, v)" by (cases "alloc h t")
    obtain h2 vs' where e2: "alloc_elems h1 ts = (h2, vs')" by (cases "alloc_elems h1 ts")
    from 12(1) e1 n c obtain ext1 where x1: "h1 = h @ ext1" and av: "above n v"
      and c1: "closed_above n h1" by blast
    from x1 n have n1: "n \<le> length h1" by simp
    from 12(2) [OF e1 [symmetric]] e2 n1 c1 obtain ext2 where x2: "h2 = h1 @ ext2"
      and avs: "list_all (above n) vs'" and c2: "closed_above n h2" by blast
    from a e1 e2 have "h' = h2" "vs = v # vs'" by simp_all
    with x1 x2 av avs c2 show "(\<exists>ext. h' = h @ ext) \<and> list_all (above n) vs \<and> closed_above n h'"
      by simp
  qed
next
  case (14 h k t fs)
  show ?case
  proof (intro allI impI)
    fix n h' ms
    assume a: "alloc_members h ((k, t) # fs) = (h', ms)" and n: "n \<le> length h" and c: "closed_above n h"
    obtain h1 v where e1: "alloc h t = (h1, v)" by (cases "alloc h t")
    obtain h2 ms' where e2: "alloc_members h1 fs = (h2, ms')" by (cases "alloc_members h1 fs")
    from 14(1) e1 n c obtain ext1 where x1: "h1 = h @ ext1" and av: "above n v"
      and c1: "closed_above n h1" by blast
    from x1 n have n1: "n \<le> length h1" by simp
    from 14(2) [OF e1 [symmetric]] e2 n1 c1 obtain ext2 where x2: "h2 = h1 @ ext2"
      and avs: "list_all (above n) (map snd ms')" and c2: "closed_above n h2"
      and keys: "map fst ms' = map fst fs" by blast
    from a e1 e2 have "h' = h2" "ms = (k, v) # ms'" by simp_all
    with x1 x2 av avs c2 keys
    show "(\<exists>ext. h' = h @ ext) \<and> list_all (above n) (map snd ms) \<and> closed_above n h' \<and>
      map fst ms = map fst ((k, t) # fs)"
      by simp
  qed
qed auto


text \<open>
  Redaction overwrites values in place: it keeps every key, and started above \<open>n\<close> in a
  heap closed above \<open>n\<close> it stays above \<open>n\<close>.
\<close>

lemma above_val_of [simp]: "above n (val_of p)"
  by (cases p) simp_all

lemma above_apply_censor [simp]: "above n (apply_censor c v)"
  by (cases c) (simp_all add: apply_censor_def)

lemma above_censor_prop: "above n (snd p) \<Longrightarrow> above n (censor_prop c s p)"
  by (simp add: censor_prop_def)

lemma censor_cell_keys: "map fst (cell_props (censor_cell c s cell)) = map fst (cell_props cell)"
  by (cases cell) (simp_all add: censor_cell_def comp_def cell_props_def)

lemma censor_cell_above:
  assumes "list_all (above n) (cell_vals cell)"
  shows "list_all (above n) (cell_vals (censor_cell c s cell))"
proof (cases cell)
  case (Object fs)
  with assms show ?thesis
    by (auto simp: censor_cell_def list_all_iff intro: above_censor_prop)
next
  case (Array vs)
  have "above n (censor_prop c s p)" if "p \<in> set (zip (map show_nat [0..<length vs]) vs)" for p
  proof -
    from that have "snd p \<in> set vs" by (metis in_set_zipE prod.collapse)
    with assms Array show ?thesis by (auto simp: list_all_iff intro: above_censor_prop)
  qed
  with Array show ?thesis
    by (auto simp: censor_cell_def list_all_iff cell_props_def)
qed

lemma preserves_refl: "preserves n h h"
  by (simp add: preserves_def)

lemma preserves_trans: "preserves n h h1 \<Longrightarrow> preserves n h1 h2 \<Longrightarrow> preserves n h h2"
  by (auto simp: preserves_def)

lemma update_above:
  assumes c: "closed_above n h" and a: "n \<le> a" "a < length h"
    and vals: "list_all (above n) (cell_vals cell)"
    and keys: "map fst (cell_props cell) = map fst (cell_props (h ! a))"
  shows "closed_above n (h[a := cell]) \<and> preserves n h (h[a := cell])"
proof -
  have "list_all (above n) (cell_vals (h[a := cell] ! b))" if "n \<le> b" "b < length h" for b
    using that c vals by (cases "b = a") (simp_all add: closed_above_def)
  then have "closed_above n (h[a := cell])"
    by (simp add: closed_above_def)
  moreover have "preserves n h (h[a := cell])"
    using a keys by (auto simp: preserves_def nth_list_update)
  ultimately show ?thesis by simp
qed

lemma selected_above:
  assumes "closed_above n h" "n \<le> a" "a < length h"
  shows "list_all (above n) (selected s (h ! a))"
proof -
  from assms have "list_all (above n) (cell_vals (h ! a))" by (simp add: closed_above_def)
  then show ?thesis by (auto simp: selected_def cell_vals_def list_all_iff)
qed

lemma foldl_preserves:
  assumes step: "\<And>h x. closed_above n h \<Longrightarrow> P x \<Longrightarrow>
      closed_above n (f h x) \<and> preserves n h (f h x)"
  shows "closed_above n h \<Longrightarrow> list_all P xs \<Longrightarrow>
      closed_above n (foldl f h xs) \<and> preserves n h (foldl f h xs)"
proof (induction xs arbitrary: h)
  case Nil
  then show ?case by (simp add: preserves_refl)
next
  case (Cons x xs)
  from Cons.prems step [of h x] have c1: "closed_above n (f h x)" and p1: "preserves n h (f h x)"
    by simp_all
  from Cons.IH [OF c1] Cons.prems have "closed_above n (foldl f (f h x) xs)"
    and "preserves n (f h x) (foldl f (f h x) xs)" by simp_all
  with p1 show ?case by (auto intro: preserves_trans)
qed

lemma redact_path_preserves:
  "closed_above n h \<Longrightarrow> above n v \<Longrightarrow>
     closed_above n (redact_path c p h v) \<and> preserves n h (redact_path c p h v)"
proof (induction p arbitrary: h v)
  case Nil
  then show ?case by (simp add: preserves_refl)
next
  case (Cons s p)
  show ?case
  proof (cases v)
    case (VRef a)
    show ?thesis
    proof (cases "a < length h")
      case False
      then show ?thesis using Cons.prems VRef
        by (cases p) (simp_all add: lookup_def preserves_refl)
    next
      case True
      from Cons.prems VRef have na: "n \<le> a" by simp
      show ?thesis
      proof (cases p)
        case Nil
        have "list_all (above n) (cell_vals (h ! a))"
          using Cons.prems(1) na True by (simp add: closed_above_def)
        then have "list_all (above n) (cell_vals (censor_cell c s (h ! a)))"
          by (rule censor_cell_above)
        from update_above [OF Cons.prems(1) na True this censor_cell_keys]
        show ?thesis using Nil VRef True by (simp add: lookup_def)
      next
        case (Cons s' p')
        have sel: "list_all (above n) (selected s (h ! a))"
          using \<open>closed_above n h\<close> na True by (rule selected_above)
        have "closed_above n (foldl (\<lambda>h' v'. redact_path c p h' v') h (selected s (h ! a))) \<and>
              preserves n h (foldl (\<lambda>h' v'. redact_path c p h' v') h (selected s (h ! a)))"
          using Cons.IH \<open>closed_above n h\<close> sel by (intro foldl_preserves) auto
        then show ?thesis using Cons VRef True by (simp add: lookup_def)
      qed
    qed
  qed (cases p; simp add: preserves_refl Cons.prems)+
qed

lemma redact_paths_preserves:
  assumes "closed_above n h" "above n v"
  shows "closed_above n (redact_paths c ps h v) \<and> preserves n h (redact_paths c ps h v)"
proof -
  have all: "list_all (\<lambda>p. True) ps" by (simp add: list_all_iff)
  have step: "closed_above n h' \<Longrightarrow> True \<Longrightarrow>
      closed_above n (redact_path c p h' v) \<and> preserves n h' (redact_path c p h' v)" for h' p
    using redact_path_preserves [of n h' v c p] assms(2) by simp
  show ?thesis
    unfolding redact_paths_def
    using step assms(1) all by (rule foldl_preserves)
qed

lemma fastRedact_serialize_false:
  assumes "fastRedact (spread_serialize_false redactConfig) = Inr redact"
  shows "\<exists>cen ps strict. redact =
     (\<lambda>h v. if ps = [] then Inr (h, v)
            else (case v of
                    VRef a \<Rightarrow> Inr (redact_paths cen ps h v, v)
                  | _ \<Rightarrow> if strict then Inl RedactError else Inr (h, v)))"
proof -
  let ?opts = "spread_serialize_false redactConfig"
  have ser: "resolve_serialize (opt_serialize ?opts) = NoSerialize"
    by (simp add: spread_serialize_false_def resolve_serialize_def)
  define ps where "ps = rev (remdups (rev (case opt_paths ?opts of None \<Rightarrow> [] | Some ps \<Rightarrow> ps)))"
  define cen where "cen = (if opt_remove ?opts = Some True then CensorValue PUndefined
                    else case opt_censor ?opts of
                           None \<Rightarrow> CensorValue (PStr ''[REDACTED]'')
                         | Some c \<Rightarrow> c)"
  define strict where "strict = (case opt_strict ?opts of None \<Rightarrow> True | Some b \<Rightarrow> b)"
  have unfolded: "fastRedact ?opts =
     (if opt_remove ?opts = Some True then Inl RedactError
      else if ps = [] then Inr (\<lambda>h v. Inr (h, v))
      else Inr (\<lambda>h v.
             (case v of
                VRef a \<Rightarrow> Inr (redact_paths cen ps h v, v)
              | _ \<Rightarrow> if strict then Inl RedactError else Inr (h, v))))"
    unfolding fastRedact_def Let_def ser ps_def [symmetric] cen_def [symmetric] strict_def [symmetric]
    by (simp add: serialize_result_def fun_eq_iff split: val.splits)
  from assms have "redact =
     (\<lambda>h v. if ps = [] then Inr (h, v)
            else (case v of
                    VRef a \<Rightarrow> Inr (redact_paths cen ps h v, v)
                  | _ \<Rightarrow> if strict then Inl RedactError else Inr (h, v)))"
    unfolding unfolded by (auto split: if_splits)
  then show ?thesis by blast
qed

lemma redactor_ok_fastRedact:
  assumes "fastRedact (spread_serialize_false redactConfig) = Inr redact"
  shows "redactor_ok redact"
proof -
  from fastRedact_serialize_false [OF assms] obtain cen ps strict where red: "redact =
     (\<lambda>h v. if ps = [] then Inr (h, v)
            else (case v of
                    VRef a \<Rightarrow> Inr (redact_paths cen ps h v, v)
                  | _ \<Rightarrow> if strict then Inl RedactError else Inr (h, v)))"
    by blast
  show ?thesis
    unfolding redactor_ok_def
  proof (intro allI impI, elim conjE)
    fix n h v h' v'
    assume c: "closed_above n h" and a: "above n v" and r: "redact h v = Inr (h', v')"
    from r have "(h' = h \<or> h' = redact_paths cen ps h v) \<and> v' = v"
      unfolding red by (auto split: if_splits val.splits)
    with c redact_paths_preserves [OF c a, of cen ps]
    have "v' = v \<and> closed_above n h' \<and> preserves n h h'"
      by (auto simp: preserves_refl)
    then show "v' = v \<and> length h' = length h \<and> closed_above n h' \<and>
        (\<forall>a<n. a < length h \<longrightarrow> h' ! a = h ! a) \<and>
        (\<forall>a<length h. map fst (cell_props (h' ! a)) = map fst (cell_props (h ! a)))"
      by (simp add: preserves_def)
  qed
qed

section \<open>Properties of the property-list operations\<close>

lemma map_of_set_prop: "map_of (set_prop k v fs) = (map_of fs)(k \<mapsto> v)"
  by (induction fs) (auto simp: fun_eq_iff)

lemma keys_set_prop:
  "map fst (set_prop k v fs) = (if k \<in> set (map fst fs) then map fst fs else map fst fs @ [k])"
  by (induction fs) (force+)

lemma get_prop_new_cell:
  "get_prop (h @ [Object fs]) (VRef (length h)) k = (case map_of fs k of Some x \<Rightarrow> x | None \<Rightarrow> VUndefined)"
  by (simp add: get_prop_def own_props_def lookup_def cell_props_def)


section \<open>The record serializers\<close>

text \<open>
  C6, as the code has it. The \<^verbatim>\<open>req\<close> serializer returns its input unchanged (the same
  value, the heap untouched) when the input is falsy or its \<^verbatim>\<open>connection\<close> property is falsy:
  absent, \<^verbatim>\<open>undefined\<close>, \<^verbatim>\<open>null\<close>, \<^verbatim>\<open>false\<close>, \<^verbatim>\<open>0\<close> or the empty string. Otherwise it
  returns exactly a new object \<^verbatim>\<open>{method, url, query, body, headers, remoteAddress, remotePort}\<close>,
  whose \<^verbatim>\<open>url\<close> is \<^verbatim>\<open>originalUrl\<close> when that is truthy and \<^verbatim>\<open>url\<close> otherwise.
\<close>

theorem req_serializer_truthy:
  "(\<not> truthy req \<or> \<not> truthy (get_prop h req ''connection'') \<longrightarrow> req_serializer h req = (h, req)) \<and>
   (truthy req \<and> truthy (get_prop h req ''connection'') \<longrightarrow>
      req_serializer h req =
        (h @ [Object
           [(''method'', get_prop h req ''method''),
            (''url'', if truthy (get_prop h req ''originalUrl'')
                      then get_prop h req ''originalUrl'' else get_prop h req ''url''),
            (''query'', get_prop h req ''query''),
            (''body'', get_prop h req ''body''),
            (''headers'', get_prop h req ''headers''),
            (''remoteAddress'', get_prop h (get_prop h req ''connection'') ''remoteAddress''),
            (''remotePort'', get_prop h (get_prop h req ''connection'') ''remotePort'')]],
         VRef (length h)))"
  by (simp add: req_serializer_def js_or_def)

theorem req_serializer_truthy_witness:
  "truthy (VRef 0) \<and>
   truthy (get_prop [Object [(''connection'', VRef 1), (''originalUrl'', VStr ''/o''), (''url'', VStr ''/x'')],
                     Object [(''remotePort'', VNum 80)]] (VRef 0) ''connection'') \<and>
   req_serializer [Object [(''connection'', VRef 1), (''originalUrl'', VStr ''/o''), (''url'', VStr ''/x'')],
                     Object [(''remotePort'', VNum 80)]] (VRef 0)
     = ([Object [(''connection'', VRef 1), (''originalUrl'', VStr ''/o''), (''url'', VStr ''/x'')],
         Object [(''remotePort'', VNum 80)],
         Object [(''method'', VUndefined), (''url'', VStr ''/o''), (''query'', VUndefined),
                 (''body'', VUndefined), (''headers'', VUndefined),
                 (''remoteAddress'', VUndefined), (''remotePort'', VNum 80)]], VRef 2) \<and>
   \<not> truthy (get_prop [Object []] (VRef 0) ''connection'') \<and>
   req_serializer [Object []] (VRef 0) = ([Object []], VRef 0) \<and>
   \<not> truthy VNull \<and> req_serializer [] VNull = ([], VNull)"
  using req_serializer_truthy [of "VRef 0" "[Object [(''connection'', VRef 1), (''originalUrl'', VStr ''/o''), (''url'', VStr ''/x'')],
                     Object [(''remotePort'', VNum 80)]]"]
    req_serializer_truthy [of "VRef 0" "[Object []]"]
    req_serializer_truthy [of VNull "[]"]
  by (simp add: get_prop_def own_props_def lookup_def cell_props_def)

text \<open>
  C6 as stated fails where a property is present but falsy: an input that has a
  \<^verbatim>\<open>connection\<close> property holding \<^verbatim>\<open>false\<close> is returned unchanged although it does not lack
  the property, and a present but empty \<^verbatim>\<open>originalUrl\<close> is passed over in favour of \<^verbatim>\<open>url\<close>.
\<close>

theorem req_serializer_counterexample:
  "has_prop [Object [(''connection'', VBool False)]] (VRef 0) ''connection'' \<and>
   req_serializer [Object [(''connection'', VBool False)]] (VRef 0)
     = ([Object [(''connection'', VBool False)]], VRef 0) \<and>
   has_prop [Object [(''connection'', VRef 1), (''originalUrl'', VStr ''''), (''url'', VStr ''/x'')], Object []]
     (VRef 0) ''originalUrl'' \<and>
   req_serializer [Object [(''connection'', VRef 1), (''originalUrl'', VStr ''''), (''url'', VStr ''/x'')], Object []]
     (VRef 0)
     = ([Object [(''connection'', VRef 1), (''originalUrl'', VStr ''''), (''url'', VStr ''/x'')], Object [],
         Object [(''method'', VUndefined), (''url'', VStr ''/x''), (''query'', VUndefined),
                 (''body'', VUndefined), (''headers'', VUndefined),
                 (''remoteAddress'', VUndefined), (''remotePort'', VUndefined)]], VRef 2)"
  by (simp add: req_serializer_def has_prop_def get_prop_def own_props_def lookup_def cell_props_def js_or_def)

text \<open>
  C7, as the code has it. The \<^verbatim>\<open>res\<close> serializer returns its input unchanged when the input
  is falsy or its \<^verbatim>\<open>statusCode\<close> is falsy (absent, \<^verbatim>\<open>undefined\<close>, \<^verbatim>\<open>null\<close>, \<^verbatim>\<open>0\<close>, ...),
  and otherwise returns exactly a new object \<^verbatim>\<open>{statusCode, header}\<close> whose \<^verbatim>\<open>header\<close> is the
  response's rendered header block \<^verbatim>\<open>_header\<close>.
\<close>

theorem res_serializer_truthy:
  "(\<not> truthy res \<or> \<not> truthy (get_prop h res ''statusCode'') \<longrightarrow> res_serializer h res = (h, res)) \<and>
   (truthy res \<and> truthy (get_prop h res ''statusCode'') \<longrightarrow>
      res_serializer h res =
        (h @ [Object [(''statusCode'', get_prop h res ''statusCode''),
                      (''header'', get_prop h res ''_header'')]],
         VRef (length h)))"
  by (simp add: res_serializer_def)

theorem res_serializer_truthy_witness:
  "truthy (VRef 0) \<and>
   truthy (get_prop [Object [(''statusCode'', VNum 200), (''_header'', VStr ''HTTP/1.1 200 OK'')]] (VRef 0) ''statusCode'') \<and>
   res_serializer [Object [(''statusCode'', VNum 200), (''_header'', VStr ''HTTP/1.1 200 OK'')]] (VRef 0)
     = ([Object [(''statusCode'', VNum 200), (''_header'', VStr ''HTTP/1.1 200 OK'')],
         Object [(''statusCode'', VNum 200), (''header'', VStr ''HTTP/1.1 200 OK'')]], VRef 1) \<and>
   \<not> truthy (get_prop [Object []] (VRef 0) ''statusCode'') \<and>
   res_serializer [Object []] (VRef 0) = ([Object []], VRef 0) \<and>
   \<not> truthy VUndefined \<and> res_serializer [] VUndefined = ([], VUndefined)"
  using res_serializer_truthy [of "VRef 0" "[Object [(''statusCode'', VNum 200), (''_header'', VStr ''HTTP/1.1 200 OK'')]]"]
    res_serializer_truthy [of "VRef 0" "[Object []]"]
    res_serializer_truthy [of VUndefined "[]"]
  by (simp add: get_prop_def own_props_def lookup_def cell_props_def)

text \<open>
  C7 as stated fails for a response that has a status code of \<^verbatim>\<open>0\<close>: it does not lack the
  property, yet it is returned unchanged instead of being summarised.
\<close>

theorem res_serializer_counterexample:
  "has_prop [Object [(''statusCode'', VNum 0), (''_header'', VStr ''x'')]] (VRef 0) ''statusCode'' \<and>
   res_serializer [Object [(''statusCode'', VNum 0), (''_header'', VStr ''x'')]] (VRef 0)
     = ([Object [(''statusCode'', VNum 0), (''_header'', VStr ''x'')]], VRef 0)"
  by (simp add: res_serializer_def has_prop_def get_prop_def own_props_def lookup_def cell_props_def)


section \<open>The logger factory's configuration\<close>

lemma createLogger_created_default:
  "\<exists>lg. createLogger e level None = Inr lg"
  by (simp add: createLogger_def fastRedact_def spread_serialize_false_def Let_def
      resolve_serialize_def split: sum.splits option.splits)

text \<open>
  C8, as the code has it. When \<^verbatim>\<open>GAE_SERVICE\<close> is set to a non-empty string the logger is
  named after it; otherwise, when \<^verbatim>\<open>K_SERVICE\<close> is set to a non-empty string, after that; in
  both cases with a single structured log-shipping stream. When neither holds a non-empty
  string the logger is named \<^verbatim>\<open>default\<close> with a single human-readable stream. In every case
  the stream's level is the \<^verbatim>\<open>level\<close> option when it is given and truthy (a non-empty name or
  a non-zero number), else the \<^verbatim>\<open>LOG_LEVEL\<close> variable when it is non-empty, else \<^verbatim>\<open>info\<close>.
  These are the settings of every logger that \<^verbatim>\<open>createLogger\<close> returns.
\<close>

theorem createLogger_settings_correct:
  "(env_truthy (GAE_SERVICE e) \<longrightarrow>
      createLogger_settings e level =
        \<lparr>logger_name = the (GAE_SERVICE e),
         logger_streams = [\<lparr>stream_kind = CloudLogging True False, stream_level = logLevel e level\<rparr>]\<rparr>) \<and>
   (\<not> env_truthy (GAE_SERVICE e) \<and> env_truthy (K_SERVICE e) \<longrightarrow>
      createLogger_settings e level =
        \<lparr>logger_name = the (K_SERVICE e),
         logger_streams = [\<lparr>stream_kind = CloudLogging True False, stream_level = logLevel e level\<rparr>]\<rparr>) \<and>
   (\<not> env_truthy (GAE_SERVICE e) \<and> \<not> env_truthy (K_SERVICE e) \<longrightarrow>
      createLogger_settings e level =
        \<lparr>logger_name = ''default'',
         logger_streams = [\<lparr>stream_kind = PrettyConsole ''short'', stream_level = logLevel e level\<rparr>]\<rparr>) \<and>
   logLevel e level =
     (if level \<noteq> None \<and> level_truthy (the level) then the level
      else if env_truthy (LOG_LEVEL e) then LevelName (the (LOG_LEVEL e))
      else LevelName ''info'') \<and>
   (\<forall>lg. createLogger e level redactConfig = Inr lg \<longrightarrow>
      lg_settings lg = createLogger_settings e level)"
  by (cases level)
     (auto simp: createLogger_settings_def getGoogleServiceName_def logLevel_def createLogger_def
        split: sum.splits)

theorem createLogger_settings_correct_witness:
  "env_truthy (GAE_SERVICE \<lparr>GAE_SERVICE = Some ''api'', K_SERVICE = Some ''fn'', LOG_LEVEL = None\<rparr>) \<and>
   createLogger_settings \<lparr>GAE_SERVICE = Some ''api'', K_SERVICE = Some ''fn'', LOG_LEVEL = None\<rparr> None
     = \<lparr>logger_name = ''api'',
        logger_streams = [\<lparr>stream_kind = CloudLogging True False, stream_level = LevelName ''info''\<rparr>]\<rparr> \<and>
   \<not> env_truthy (GAE_SERVICE \<lparr>GAE_SERVICE = None, K_SERVICE = Some ''fn'', LOG_LEVEL = Some ''warn''\<rparr>) \<and>
   env_truthy (K_SERVICE \<lparr>GAE_SERVICE = None, K_SERVICE = Some ''fn'', LOG_LEVEL = Some ''warn''\<rparr>) \<and>
   createLogger_settings \<lparr>GAE_SERVICE = None, K_SERVICE = Some ''fn'', LOG_LEVEL = Some ''warn''\<rparr> None
     = \<lparr>logger_name = ''fn'',
        logger_streams = [\<lparr>stream_kind = CloudLogging True False, stream_level = LevelName ''warn''\<rparr>]\<rparr> \<and>
   \<not> env_truthy (K_SERVICE \<lparr>GAE_SERVICE = None, K_SERVICE = None, LOG_LEVEL = Some ''warn''\<rparr>) \<and>
   createLogger_settings \<lparr>GAE_SERVICE = None, K_SERVICE = None, LOG_LEVEL = Some ''warn''\<rparr>
       (Some (LevelName ''trace''))
     = \<lparr>logger_name = ''default'',
        logger_streams = [\<lparr>stream_kind = PrettyConsole ''short'', stream_level = LevelName ''trace''\<rparr>]\<rparr> \<and>
   (\<exists>lg. createLogger \<lparr>GAE_SERVICE = Some ''api'', K_SERVICE = Some ''fn'', LOG_LEVEL = None\<rparr> None None
           = Inr lg \<and>
         lg_settings lg =
           \<lparr>logger_name = ''api'',
            logger_streams = [\<lparr>stream_kind = CloudLogging True False, stream_level = LevelName ''info''\<rparr>]\<rparr>)"
  using createLogger_settings_correct [of "\<lparr>GAE_SERVICE = Some ''api'', K_SERVICE = Some ''fn'', LOG_LEVEL = None\<rparr>" None None]
    createLogger_settings_correct [of "\<lparr>GAE_SERVICE = None, K_SERVICE = Some ''fn'', LOG_LEVEL = Some ''warn''\<rparr>" None None]
    createLogger_settings_correct [of "\<lparr>GAE_SERVICE = None, K_SERVICE = None, LOG_LEVEL = Some ''warn''\<rparr>" "Some (LevelName ''trace'')" None]
    createLogger_created_default [of "\<lparr>GAE_SERVICE = Some ''api'', K_SERVICE = Some ''fn'', LOG_LEVEL = None\<rparr>" None]
  by (auto simp add: env_truthy_def)

text \<open>
  C8 as stated fails when a variable is set but empty, and when the level option is given
  as the number \<^verbatim>\<open>0\<close>: with \<^verbatim>\<open>GAE_SERVICE\<close> set to the empty string the logger is named
  \<^verbatim>\<open>default\<close> and writes a human-readable stream, and the given level \<^verbatim>\<open>0\<close> is replaced by
  the environment's.
\<close>

theorem createLogger_settings_counterexample:
  "GAE_SERVICE \<lparr>GAE_SERVICE = Some '''', K_SERVICE = None, LOG_LEVEL = Some ''debug''\<rparr> = Some '''' \<and>
   createLogger_settings \<lparr>GAE_SERVICE = Some '''', K_SERVICE = None, LOG_LEVEL = Some ''debug''\<rparr>
       (Some (LevelNum 0))
     = \<lparr>logger_name = ''default'',
        logger_streams = [\<lparr>stream_kind = PrettyConsole ''short'', stream_level = LevelName ''debug''\<rparr>]\<rparr>"
  by (simp add: createLogger_settings_def getGoogleServiceName_def env_truthy_def logLevel_def)


section \<open>The request logging middleware\<close>

text \<open>
  C9, as the code has it. The completion record carries the message \<^verbatim>\<open>Request finished\<close>
  and the keys \<^verbatim>\<open>req\<close> and \<^verbatim>\<open>res\<close>; it contains \<^verbatim>\<open>httpRequest\<close> together with the trace,
  span and sampled keys if and only if \<^verbatim>\<open>K_SERVICE\<close> is set to a non-empty string. In that
  case \<^verbatim>\<open>httpRequest\<close> is a fresh copy whose \<^verbatim>\<open>requestUrl\<close> is prefixed with \<^verbatim>\<open>/\<close> and the
  function name when it is a string that starts with \<^verbatim>\<open>/\<close> but not with \<^verbatim>\<open>/\<close> followed by the
  function name, and is carried through unchanged otherwise (also when it is absent or does
  not start with \<^verbatim>\<open>/\<close>); every other property of \<^verbatim>\<open>httpRequest\<close> is carried through.
\<close>

theorem emitRequestLog_record:
  assumes "emitRequestLog e h req res httpRequest trace span sampled = Inr (h', flds, msg)"
  shows "msg = ''Request finished'' \<and>
    map fst flds =
      (if env_truthy (K_SERVICE e)
       then [''req'', ''res'', ''httpRequest'', LOGGING_TRACE_KEY, LOGGING_SPAN_KEY, LOGGING_SAMPLED_KEY]
       else [''req'', ''res'']) \<and>
    (env_truthy (K_SERVICE e) \<longrightarrow>
       map_of flds ''httpRequest'' = Some (VRef (length h)) \<and>
       get_prop h' (VRef (length h)) ''requestUrl'' =
         (case get_prop h httpRequest ''requestUrl'' of
            VStr s \<Rightarrow> if starts_with s ''/'' \<and> \<not> starts_with s (''/'' @ the (K_SERVICE e))
                      then VStr (''/'' @ the (K_SERVICE e) @ s) else VStr s
          | v \<Rightarrow> v) \<and>
       (\<forall>k. k \<noteq> ''requestUrl'' \<longrightarrow> get_prop h' (VRef (length h)) k = get_prop h httpRequest k))"
proof (cases "env_truthy (K_SERVICE e)")
  case False
  with assms show ?thesis by (auto simp: emitRequestLog_def)
next
  case True
  with assms obtain url where
    url: "rewrite_requestUrl (the (K_SERVICE e)) (get_prop h httpRequest ''requestUrl'') = Inr url"
    and h': "h' = h @ [Object (set_prop ''requestUrl'' url (own_props h httpRequest))]"
    and flds: "flds = assign_props [(''req'', req), (''res'', res)]
                          [(''httpRequest'', VRef (length h)),
                           (LOGGING_TRACE_KEY, trace),
                           (LOGGING_SPAN_KEY, span),
                           (LOGGING_SAMPLED_KEY, sampled)]"
    and msg: "msg = ''Request finished''"
    by (auto simp: emitRequestLog_def Let_def split: sum.splits)
  have keys: "map fst flds = [''req'', ''res'', ''httpRequest'', LOGGING_TRACE_KEY, LOGGING_SPAN_KEY, LOGGING_SAMPLED_KEY]"
    and hr: "map_of flds ''httpRequest'' = Some (VRef (length h))"
    unfolding flds
    by (simp_all add: assign_props_def LOGGING_TRACE_KEY_def LOGGING_SPAN_KEY_def LOGGING_SAMPLED_KEY_def)
  have url_eq: "url = (case get_prop h httpRequest ''requestUrl'' of
            VStr s \<Rightarrow> if starts_with s ''/'' \<and> \<not> starts_with s (''/'' @ the (K_SERVICE e))
                      then VStr (''/'' @ the (K_SERVICE e) @ s) else VStr s
          | v \<Rightarrow> v)"
    using url by (auto simp: rewrite_requestUrl_def split: val.splits)
  have g1: "get_prop h' (VRef (length h)) ''requestUrl'' = url"
    unfolding h' by (simp add: get_prop_new_cell map_of_set_prop)
  have g2: "\<forall>k. k \<noteq> ''requestUrl'' \<longrightarrow> get_prop h' (VRef (length h)) k = get_prop h httpRequest k"
    unfolding h' by (simp add: get_prop_new_cell map_of_set_prop) (simp add: get_prop_def)
  from True msg keys hr url_eq g1 g2 show ?thesis by simp
qed

theorem emitRequestLog_record_witness:
  "emitRequestLog \<lparr>GAE_SERVICE = None, K_SERVICE = Some ''fn'', LOG_LEVEL = None\<rparr>
       [Object [(''requestMethod'', VStr ''GET''), (''requestUrl'', VStr ''/?a=1'')]]
       VUndefined VUndefined (VRef 0) (VStr ''t'') VUndefined (VBool True)
     = Inr ([Object [(''requestMethod'', VStr ''GET''), (''requestUrl'', VStr ''/?a=1'')],
             Object [(''requestMethod'', VStr ''GET''), (''requestUrl'', VStr ''/fn/?a=1'')]],
            [(''req'', VUndefined), (''res'', VUndefined), (''httpRequest'', VRef 1),
             (LOGGING_TRACE_KEY, VStr ''t''), (LOGGING_SPAN_KEY, VUndefined),
             (LOGGING_SAMPLED_KEY, VBool True)],
            ''Request finished'') \<and>
   env_truthy (K_SERVICE \<lparr>GAE_SERVICE = None, K_SERVICE = Some ''fn'', LOG_LEVEL = None\<rparr>) \<and>
   get_prop [Object [(''requestMethod'', VStr ''GET''), (''requestUrl'', VStr ''/?a=1'')],
             Object [(''requestMethod'', VStr ''GET''), (''requestUrl'', VStr ''/fn/?a=1'')]]
       (VRef 1) ''requestUrl'' = VStr ''/fn/?a=1''"
proof -
  have run: "emitRequestLog \<lparr>GAE_SERVICE = None, K_SERVICE = Some ''fn'', LOG_LEVEL = None\<rparr>
       [Object [(''requestMethod'', VStr ''GET''), (''requestUrl'', VStr ''/?a=1'')]]
       VUndefined VUndefined (VRef 0) (VStr ''t'') VUndefined (VBool True)
     = Inr ([Object [(''requestMethod'', VStr ''GET''), (''requestUrl'', VStr ''/?a=1'')],
             Object [(''requestMethod'', VStr ''GET''), (''requestUrl'', VStr ''/fn/?a=1'')]],
            [(''req'', VUndefined), (''res'', VUndefined), (''httpRequest'', VRef 1),
             (LOGGING_TRACE_KEY, VStr ''t''), (LOGGING_SPAN_KEY, VUndefined),
             (LOGGING_SAMPLED_KEY, VBool True)],
            ''Request finished'')"
    by (simp add: emitRequestLog_def env_truthy_def rewrite_requestUrl_def starts_with_def
      get_prop_def own_props_def lookup_def cell_props_def assign_props_def
      LOGGING_TRACE_KEY_def LOGGING_SPAN_KEY_def LOGGING_SAMPLED_KEY_def)
  have tr: "env_truthy (K_SERVICE \<lparr>GAE_SERVICE = None, K_SERVICE = Some ''fn'', LOG_LEVEL = None\<rparr>)"
    by (simp add: env_truthy_def)
  from emitRequestLog_record [OF run] tr run show ?thesis
    by (simp add: get_prop_def own_props_def lookup_def cell_props_def starts_with_def)
qed

text \<open>
  C9 as stated fails for a request URL that does not start with \<^verbatim>\<open>/\<close>: the function-name
  prefix is not present in it, and yet it is not rewritten.
\<close>

theorem emitRequestLog_counterexample:
  "\<not> starts_with ''http://host/x'' ''/fn'' \<and>
   emitRequestLog \<lparr>GAE_SERVICE = None, K_SERVICE = Some ''fn'', LOG_LEVEL = None\<rparr>
       [Object [(''requestUrl'', VStr ''http://host/x'')]]
       VUndefined VUndefined (VRef 0) (VStr ''t'') VUndefined VUndefined
     = Inr ([Object [(''requestUrl'', VStr ''http://host/x'')],
             Object [(''requestUrl'', VStr ''http://host/x'')]],
            [(''req'', VUndefined), (''res'', VUndefined), (''httpRequest'', VRef 1),
             (LOGGING_TRACE_KEY, VStr ''t''), (LOGGING_SPAN_KEY, VUndefined),
             (LOGGING_SAMPLED_KEY, VUndefined)],
            ''Request finished'')"
  by (simp add: emitRequestLog_def env_truthy_def rewrite_requestUrl_def starts_with_def
      get_prop_def own_props_def lookup_def cell_props_def assign_props_def
      LOGGING_TRACE_KEY_def LOGGING_SPAN_KEY_def LOGGING_SAMPLED_KEY_def)


section \<open>The emit interceptor\<close>


lemma keys_prefix_assign_props:
  "\<exists>extra. map fst (assign_props fs src) = map fst fs @ extra"
proof (induction src arbitrary: fs)
  case Nil
  show ?case by (simp add: assign_props_def)
next
  case (Cons p src)
  have step: "assign_props fs (p # src) = assign_props (set_prop (fst p) (snd p) fs) src"
    by (simp add: assign_props_def case_prod_beta)
  from Cons [of "set_prop (fst p) (snd p) fs"] obtain extra where
    "map fst (assign_props (set_prop (fst p) (snd p) fs) src)
       = map fst (set_prop (fst p) (snd p) fs) @ extra" by blast
  then show ?case unfolding step by (auto simp: keys_set_prop)
qed



lemma globalReplace_of_spec: "globalReplace_of redactConfig = spec_transform redactConfig"
  by (auto simp: globalReplace_of_def spec_transform_def fun_eq_iff split: option.splits)


lemma log_record_unfold:
  "log_record e level redactConfig w logRecord =
     (case fastRedact (spread_serialize_false redactConfig) of
        Inl err \<Rightarrow> Inl err
      | Inr redact \<Rightarrow> proxy_emit redactConfig redact w logRecord)"
  by (simp add: log_record_def createLogger_def split: sum.splits)

text \<open>What a successful call of the interceptor went through.\<close>

lemma log_record_success:
  assumes "log_record e level redactConfig w logRecord = Inr w'"
  obtains redact fs tx h2 parsed h3 where
    "fastRedact (spread_serialize_false redactConfig) = Inr redact"
    "lookup (w_heap w) logRecord = Some (Object fs)"
    "JSON_stringify_cell (w_heap w) (Object (rest_of fs)) = Inr (Some tx)"
    "JSON_parse (w_heap w) (globalReplace_of redactConfig tx) = Inr (h2, parsed)"
    "redact h2 parsed = Inr (h3, parsed)"
    "closed_above (length (w_heap w)) h2" "above (length (w_heap w)) parsed"
    "\<exists>ext. h2 = w_heap w @ ext"
    "length h3 = length h2"
    "\<forall>a < length (w_heap w). h3 ! a = w_heap w ! a"
    "\<forall>a < length h2. map fst (cell_props (h3 ! a)) = map fst (cell_props (h2 ! a))"
    "w' = \<lparr>w_heap = h3[logRecord := Object (assign_props fs (own_props h3 parsed))],
           w_written = w_written w @ [logRecord]\<rparr>"
proof -
  let ?h = "w_heap w"
  from assms obtain redact where fr: "fastRedact (spread_serialize_false redactConfig) = Inr redact"
    and pe: "proxy_emit redactConfig redact w logRecord = Inr w'"
    by (auto simp: log_record_unfold split: sum.splits)
  from pe obtain fs where look: "lookup ?h logRecord = Some (Object fs)"
    by (auto simp: proxy_emit_def split: option.splits obj.splits)
  from pe look obtain tx where tx: "JSON_stringify_cell ?h (Object (rest_of fs)) = Inr (Some tx)"
    by (auto simp: proxy_emit_def split: sum.splits option.splits)
  from pe look tx obtain h2 parsed where
    parse: "JSON_parse ?h (globalReplace_of redactConfig tx) = Inr (h2, parsed)"
    by (auto simp: proxy_emit_def split: sum.splits)
  from pe look tx parse obtain h3 redacted where red: "redact h2 parsed = Inr (h3, redacted)"
    and w': "w' = \<lparr>w_heap = Object_assign h3 logRecord redacted,
                    w_written = w_written w @ [logRecord]\<rparr>"
    by (auto simp: proxy_emit_def split: sum.splits)
  from parse obtain t where al: "alloc ?h t = (h2, parsed)"
    by (auto simp: JSON_parse_def split: sum.splits)
  have c0: "closed_above (length ?h) ?h" by (auto simp: closed_above_def)
  from alloc_fresh(1) [of ?h t] al c0
  have ext: "\<exists>ext. h2 = ?h @ ext" and ab: "above (length ?h) parsed"
    and c2: "closed_above (length ?h) h2" by blast+
  from redactor_ok_fastRedact [OF fr] c2 ab red
  have same: "redacted = parsed" and len: "length h3 = length h2"
    and low: "\<forall>a < length ?h. a < length h2 \<longrightarrow> h3 ! a = h2 ! a"
    and keys: "\<forall>a < length h2. map fst (cell_props (h3 ! a)) = map fst (cell_props (h2 ! a))"
    unfolding redactor_ok_def by blast+
  from ext low have old: "\<forall>a < length ?h. h3 ! a = ?h ! a"
    by (auto simp: nth_append)
  from look have rec_lt: "logRecord < length ?h" and cell: "?h ! logRecord = Object fs"
    by (auto simp: lookup_def split: if_splits)
  from ext len rec_lt have "logRecord < length h3" by auto
  with old rec_lt cell have "lookup h3 logRecord = Some (Object fs)"
    by (simp add: lookup_def)
  then have "Object_assign h3 logRecord redacted
      = h3[logRecord := Object (assign_props fs (own_props h3 redacted))]"
    by (simp add: Object_assign_def)
  with w' same have w'': "w' = \<lparr>w_heap = h3[logRecord := Object (assign_props fs (own_props h3 parsed))],
           w_written = w_written w @ [logRecord]\<rparr>" by simp
  from red same have red': "redact h2 parsed = Inr (h3, parsed)" by simp
  from that [OF fr look tx parse red' c2 ab ext len old keys w''] show thesis .
qed





lemma wf_heap_cell:
  "wf_heap h \<Longrightarrow> a < length h \<Longrightarrow> v \<in> set (cell_vals (h ! a)) \<Longrightarrow> wf_val h v"
  by (auto simp: wf_heap_def list_all_iff)

lemma unreferenced_cell:
  "unreferenced h r \<Longrightarrow> a < length h \<Longrightarrow> v \<in> set (cell_vals (h ! a)) \<Longrightarrow> v \<noteq> VRef r"
  by (auto simp: unreferenced_def list_all_iff)

text \<open>
  A value denotes the same data in two heaps that agree on every object but one that
  nothing refers to.
\<close>

lemma snap_stable:
  "wf_heap h \<Longrightarrow> unreferenced h r \<Longrightarrow> length h \<le> length h' \<Longrightarrow>
   \<forall>a < length h. a \<noteq> r \<longrightarrow> h' ! a = h ! a \<Longrightarrow>
   wf_val h v \<Longrightarrow> v \<noteq> VRef r \<Longrightarrow> snap h' anc v = snap h anc v"
proof (induction h anc v rule: snap.induct)
  case (8 h anc a)
  from "8.prems" have lt: "a < length h" and ne: "a \<noteq> r" by simp_all
  show ?case
  proof (cases "a \<in> set anc")
    case True
    then show ?thesis by simp
  next
    case False
    from lt ne "8.prems" have l': "lookup h' a = Some (h ! a)" and l: "lookup h a = Some (h ! a)"
      by (simp_all add: lookup_def)
    have child: "snap h' (a # anc) v = snap h (a # anc) v"
      if v: "v \<in> set (cell_vals (h ! a))" and
        ih: "wf_val h v \<Longrightarrow> v \<noteq> VRef r \<Longrightarrow> snap h' (a # anc) v = snap h (a # anc) v" for v
      using ih wf_heap_cell [OF "8.prems"(1) lt v] unreferenced_cell [OF "8.prems"(2) lt v]
      by simp
    show ?thesis
    proof (cases "h ! a")
      case (Object fs)
      have "snap h' (a # anc) v = snap h (a # anc) v" if "(k, v) \<in> set fs" for k v
      proof (rule child)
        from that Object show "v \<in> set (cell_vals (h ! a))" by (force simp: cell_vals_def cell_props_def)
        from "8.IH"(1) [OF False l Object that refl] "8.prems"(1-4)
        show "wf_val h v \<Longrightarrow> v \<noteq> VRef r \<Longrightarrow> snap h' (a # anc) v = snap h (a # anc) v"
          by simp
      qed
      then have "map (\<lambda>(k, v). (k, snap h' (a # anc) v)) fs = map (\<lambda>(k, v). (k, snap h (a # anc) v)) fs"
        by auto
      with False l l' Object show ?thesis by simp
    next
      case (Array vs)
      have "snap h' (a # anc) v = snap h (a # anc) v" if "v \<in> set vs" for v
      proof (rule child)
        from that Array show "v \<in> set (cell_vals (h ! a))" by (simp add: cell_vals_def cell_props_def)
        from "8.IH"(2) [OF False l Array that] "8.prems"(1-4)
        show "wf_val h v \<Longrightarrow> v \<noteq> VRef r \<Longrightarrow> snap h' (a # anc) v = snap h (a # anc) v"
          by simp
      qed
      then have "map (snap h' (a # anc)) vs = map (snap h (a # anc)) vs"
        by auto
      with False l l' Array show ?thesis by simp
    qed
  qed
qed simp_all





lemma proxy_emit_spec:
  assumes "lookup (w_heap w) logRecord = Some (Object fs)"
  shows "proxy_emit redactConfig redact w logRecord =
     (case spec_payload redactConfig redact (w_heap w) fs of
        Inl err \<Rightarrow> Inl err
      | Inr (h3, payload) \<Rightarrow>
          Inr \<lparr>w_heap = Object_assign h3 logRecord payload,
               w_written = w_written w @ [logRecord]\<rparr>)"
  by (simp add: proxy_emit_def spec_payload_def assms rest_of_def globalReplace_of_spec
      split: sum.splits option.splits)

text \<open>
  C3. For every record object, the interceptor's result is the specification's pipeline:
  the payload assigned onto the record is \<^verbatim>\<open>redact(parse(globalReplace(serialize(rest))))\<close>
  with \<^verbatim>\<open>rest\<close> the record without the reserved fields, the global replace applied to the
  whole text before the path-based redactor runs on the parsed result; an error of any
  step is the error of the log call. When no \<^verbatim>\<open>globalReplace\<close> is configured the text is
  left as it is.
\<close>

theorem emit_payload_pipeline:
  assumes "lookup (w_heap w) logRecord = Some (Object fs)"
  shows "log_record e level redactConfig w logRecord =
     (case fastRedact (spread_serialize_false redactConfig) of
        Inl err \<Rightarrow> Inl err
      | Inr redact \<Rightarrow>
          (case spec_payload redactConfig redact (w_heap w) fs of
             Inl err \<Rightarrow> Inl err
           | Inr (h3, payload) \<Rightarrow>
               Inr \<lparr>w_heap = h3[logRecord := Object (assign_props fs (own_props h3 payload))],
                    w_written = w_written w @ [logRecord]\<rparr>)) \<and>
     (redactConfig = None \<or> opt_globalReplace (the redactConfig) = None \<longrightarrow>
        (\<forall>tx. globalReplace_of redactConfig tx = tx))"
proof
  show "log_record e level redactConfig w logRecord =
     (case fastRedact (spread_serialize_false redactConfig) of
        Inl err \<Rightarrow> Inl err
      | Inr redact \<Rightarrow>
          (case spec_payload redactConfig redact (w_heap w) fs of
             Inl err \<Rightarrow> Inl err
           | Inr (h3, payload) \<Rightarrow>
               Inr \<lparr>w_heap = h3[logRecord := Object (assign_props fs (own_props h3 payload))],
                    w_written = w_written w @ [logRecord]\<rparr>))"
  proof (cases "log_record e level redactConfig w logRecord")
    case (Inl err)
    then show ?thesis
      by (auto simp: log_record_unfold proxy_emit_spec [OF assms] split: sum.splits)
  next
    case (Inr w')
    then obtain redact fs0 tx h2 parsed h3 where
      fr: "fastRedact (spread_serialize_false redactConfig) = Inr redact"
      and look: "lookup (w_heap w) logRecord = Some (Object fs0)"
      and s: "JSON_stringify_cell (w_heap w) (Object (rest_of fs0)) = Inr (Some tx)"
      and p: "JSON_parse (w_heap w) (globalReplace_of redactConfig tx) = Inr (h2, parsed)"
      and r: "redact h2 parsed = Inr (h3, parsed)"
      and w': "w' = \<lparr>w_heap = h3[logRecord := Object (assign_props fs0 (own_props h3 parsed))],
           w_written = w_written w @ [logRecord]\<rparr>"
      by (rule log_record_success)
    from look assms have fs0: "fs0 = fs" by simp
    have "spec_payload redactConfig redact (w_heap w) fs = Inr (h3, parsed)"
      using s p r unfolding fs0
      by (simp add: spec_payload_def rest_of_def globalReplace_of_spec)
    with Inr fr w' fs0 show ?thesis by simp
  qed
next
  show "redactConfig = None \<or> opt_globalReplace (the redactConfig) = None \<longrightarrow>
        (\<forall>tx. globalReplace_of redactConfig tx = tx)"
    by (auto simp: globalReplace_of_def split: option.splits)
qed

theorem emit_payload_pipeline_witness:
  "lookup (w_heap \<lparr>w_heap = [Object [(''level'', VNum 30), (''msg'', VStr ''card X123''),
                                     (''password'', VStr ''secret'')]],
                   w_written = []\<rparr>) 0
     = Some (Object [(''level'', VNum 30), (''msg'', VStr ''card X123''),
                     (''password'', VStr ''secret'')]) \<and>
   log_record \<lparr>GAE_SERVICE = None, K_SERVICE = None, LOG_LEVEL = None\<rparr> None
     (Some \<lparr>opt_paths = Some [[Key ''password'']], opt_censor = None, opt_serialize = None,
            opt_remove = None, opt_strict = None,
            opt_globalReplace = Some (map (\<lambda>c. if c = CHR ''X'' then CHR ''#'' else c))\<rparr>)
     \<lparr>w_heap = [Object [(''level'', VNum 30), (''msg'', VStr ''card X123''),
                        (''password'', VStr ''secret'')]],
      w_written = []\<rparr> 0
   = Inr \<lparr>w_heap = [Object [(''level'', VNum 30), (''msg'', VStr ''card #123''),
                             (''password'', VStr ''[REDACTED]'')],
                     Object [(''msg'', VStr ''card #123''), (''password'', VStr ''[REDACTED]'')]],
            w_written = [0]\<rparr>"
proof -
  let ?w = "\<lparr>w_heap = [Object [(''level'', VNum 30), (''msg'', VStr ''card X123''),
                                     (''password'', VStr ''secret'')]],
                   w_written = []\<rparr>"
  let ?cfg = "Some \<lparr>opt_paths = Some [[Key ''password'']], opt_censor = None, opt_serialize = None,
            opt_remove = None, opt_strict = None,
            opt_globalReplace = Some (map (\<lambda>c. if c = CHR ''X'' then CHR ''#'' else c))\<rparr>"
  let ?fs = "[(''level'', VNum 30), (''msg'', VStr ''card X123''), (''password'', VStr ''secret'')]"
  have look: "lookup (w_heap ?w) 0 = Some (Object ?fs)"
    by (simp add: lookup_def)
  have run: "(case fastRedact (spread_serialize_false ?cfg) of
        Inl err \<Rightarrow> Inl err
      | Inr redact \<Rightarrow>
          (case spec_payload ?cfg redact (w_heap ?w) ?fs of
             Inl err \<Rightarrow> Inl err
           | Inr (h3, payload) \<Rightarrow>
               Inr \<lparr>w_heap = h3[0 := Object (assign_props ?fs (own_props h3 payload))],
                    w_written = w_written ?w @ [0]\<rparr>))
    = Inr \<lparr>w_heap = [Object [(''level'', VNum 30), (''msg'', VStr ''card #123''),
                             (''password'', VStr ''[REDACTED]'')],
                     Object [(''msg'', VStr ''card #123''), (''password'', VStr ''[REDACTED]'')]],
            w_written = [0]\<rparr>"
    by code_simp
  from emit_payload_pipeline [OF look, of "\<lparr>GAE_SERVICE = None, K_SERVICE = None, LOG_LEVEL = None\<rparr>" None ?cfg]
  have "log_record \<lparr>GAE_SERVICE = None, K_SERVICE = None, LOG_LEVEL = None\<rparr> None ?cfg ?w 0
    = Inr \<lparr>w_heap = [Object [(''level'', VNum 30), (''msg'', VStr ''card #123''),
                             (''password'', VStr ''[REDACTED]'')],
                     Object [(''msg'', VStr ''card #123''), (''password'', VStr ''[REDACTED]'')]],
            w_written = [0]\<rparr>"
    unfolding run by (rule conjunct1)
  with look show ?thesis by (rule conjI)
qed





text \<open>Without the override, the default serializer would return text or \<^verbatim>\<open>undefined\<close>.\<close>

lemma fastRedact_default_serializes:
  "fastRedact \<lparr>opt_paths = None, opt_censor = None, opt_serialize = None,
               opt_remove = None, opt_strict = None, opt_globalReplace = None\<rparr>
     = Inr (\<lambda>h v. case JSON_stringify h v of
                    Inl err \<Rightarrow> Inl err
                  | Inr None \<Rightarrow> Inr (h, VUndefined)
                  | Inr (Some s) \<Rightarrow> Inr (h, VStr s))"
  by (simp add: fastRedact_def resolve_serialize_def serialize_result_def fun_eq_iff)

text \<open>
  C5. Every field of the record before the interceptor runs, whatever its value and
  whether or not a rule targets it, is still a field of the forwarded record, in the same
  place: the interceptor only overwrites and appends.
\<close>

theorem emit_keeps_fields:
  assumes "log_record e level redactConfig w logRecord = Inr w'"
    and "lookup (w_heap w) logRecord = Some (Object fs)"
  shows "\<exists>fs' extra. lookup (w_heap w') logRecord = Some (Object fs') \<and>
           map fst fs' = map fst fs @ extra \<and>
           w_written w' = w_written w @ [logRecord]"
proof -
  from assms(1) obtain redact fs0 tx h2 parsed h3 where
    look: "lookup (w_heap w) logRecord = Some (Object fs0)"
    and ext: "\<exists>ext. h2 = w_heap w @ ext" and len: "length h3 = length h2"
    and w': "w' = \<lparr>w_heap = h3[logRecord := Object (assign_props fs0 (own_props h3 parsed))],
           w_written = w_written w @ [logRecord]\<rparr>"
    by (rule log_record_success)
  from look assms(2) have fs0: "fs0 = fs" by simp
  from look have "logRecord < length (w_heap w)" by (simp add: lookup_def split: if_splits)
  with ext len have lt: "logRecord < length h3" by auto
  then have "lookup (w_heap w') logRecord = Some (Object (assign_props fs (own_props h3 parsed)))"
    unfolding w' fs0 by (simp add: lookup_def)
  moreover from keys_prefix_assign_props [of fs "own_props h3 parsed"]
  obtain extra where "map fst (assign_props fs (own_props h3 parsed)) = map fst fs @ extra" by blast
  moreover have "w_written w' = w_written w @ [logRecord]" unfolding w' by simp
  ultimately show ?thesis by blast
qed

theorem emit_keeps_fields_witness:
  "log_record \<lparr>GAE_SERVICE = None, K_SERVICE = None, LOG_LEVEL = None\<rparr> None
    (Some \<lparr>opt_paths = Some [[Key ''password'']], opt_censor = None, opt_serialize = None,
           opt_remove = None, opt_strict = None, opt_globalReplace = None\<rparr>)
    \<lparr>w_heap = [Object [(''level'', VNum 30), (''msg'', VStr ''hi''), (''user'', VStr ''a''),
                       (''password'', VStr ''secret''), (''note'', VUndefined)]],
     w_written = []\<rparr> 0
   = Inr \<lparr>w_heap = [Object [(''level'', VNum 30), (''msg'', VStr ''hi''), (''user'', VStr ''a''),
                             (''password'', VStr ''[REDACTED]''), (''note'', VUndefined)],
                     Object [(''msg'', VStr ''hi''), (''user'', VStr ''a''),
                             (''password'', VStr ''[REDACTED]'')]],
            w_written = [0]\<rparr> \<and>
   (\<exists>fs' extra.
      lookup [Object [(''level'', VNum 30), (''msg'', VStr ''hi''), (''user'', VStr ''a''),
                      (''password'', VStr ''[REDACTED]''), (''note'', VUndefined)],
              Object [(''msg'', VStr ''hi''), (''user'', VStr ''a''),
                      (''password'', VStr ''[REDACTED]'')]] 0 = Some (Object fs') \<and>
      map fst fs' = [''level'', ''msg'', ''user'', ''password'', ''note''] @ extra)"
proof -
  have run: "log_record \<lparr>GAE_SERVICE = None, K_SERVICE = None, LOG_LEVEL = None\<rparr> None
    (Some \<lparr>opt_paths = Some [[Key ''password'']], opt_censor = None, opt_serialize = None,
           opt_remove = None, opt_strict = None, opt_globalReplace = None\<rparr>)
    \<lparr>w_heap = [Object [(''level'', VNum 30), (''msg'', VStr ''hi''), (''user'', VStr ''a''),
                       (''password'', VStr ''secret''), (''note'', VUndefined)]],
     w_written = []\<rparr> 0
   = Inr \<lparr>w_heap = [Object [(''level'', VNum 30), (''msg'', VStr ''hi''), (''user'', VStr ''a''),
                             (''password'', VStr ''[REDACTED]''), (''note'', VUndefined)],
                     Object [(''msg'', VStr ''hi''), (''user'', VStr ''a''),
                             (''password'', VStr ''[REDACTED]'')]],
            w_written = [0]\<rparr>"
    by code_simp
  have look: "lookup (w_heap \<lparr>w_heap = [Object [(''level'', VNum 30), (''msg'', VStr ''hi''), (''user'', VStr ''a''),
                       (''password'', VStr ''secret''), (''note'', VUndefined)]],
     w_written = []\<rparr>) 0 = Some (Object [(''level'', VNum 30), (''msg'', VStr ''hi''), (''user'', VStr ''a''),
                       (''password'', VStr ''secret''), (''note'', VUndefined)])"
    by (simp add: lookup_def)
  from emit_keeps_fields [OF run look] run show ?thesis by simp
qed




text \<open>
  C2. A successful log call leaves every object that existed before it as it was, except
  the record object the engine built for the call: the redactor is applied to the freshly
  parsed copy, whose objects all lie above the heap the caller knows. In a well-formed heap
  where nothing refers to the record, every value of the caller's therefore denotes the
  same data afterwards, and a payload logged again serializes to the same text as if the
  first call had not happened.
\<close>

theorem caller_objects_unchanged:
  assumes "log_record e level redactConfig w logRecord = Inr w'"
  shows "length (w_heap w) \<le> length (w_heap w') \<and>
    (\<forall>a < length (w_heap w). a \<noteq> logRecord \<longrightarrow> w_heap w' ! a = w_heap w ! a) \<and>
    (\<exists>redact fs tx h2 parsed h3.
        fastRedact (spread_serialize_false redactConfig) = Inr redact \<and>
        lookup (w_heap w) logRecord = Some (Object fs) \<and>
        JSON_stringify_cell (w_heap w) (Object (rest_of fs)) = Inr (Some tx) \<and>
        JSON_parse (w_heap w) (globalReplace_of redactConfig tx) = Inr (h2, parsed) \<and>
        redact h2 parsed = Inr (h3, parsed) \<and>
        above (length (w_heap w)) parsed \<and> closed_above (length (w_heap w)) h2 \<and>
        (\<forall>a < length (w_heap w). h3 ! a = w_heap w ! a)) \<and>
    (wf_heap (w_heap w) \<and> unreferenced (w_heap w) logRecord \<longrightarrow>
       (\<forall>ext v. wf_val (w_heap w) v \<and> v \<noteq> VRef logRecord \<longrightarrow>
          snap (w_heap w' @ ext) [] v = snap (w_heap w @ ext) [] v) \<and>
       (\<forall>ext fs2. list_all (\<lambda>p. wf_val (w_heap w) (snd p) \<and> snd p \<noteq> VRef logRecord) fs2 \<longrightarrow>
          JSON_stringify_cell (w_heap w' @ ext) (Object fs2)
            = JSON_stringify_cell (w_heap w @ ext) (Object fs2)))"
proof -
  let ?h = "w_heap w"
  from assms obtain redact fs tx h2 parsed h3 where
    fr: "fastRedact (spread_serialize_false redactConfig) = Inr redact"
    and look: "lookup ?h logRecord = Some (Object fs)"
    and s: "JSON_stringify_cell ?h (Object (rest_of fs)) = Inr (Some tx)"
    and p: "JSON_parse ?h (globalReplace_of redactConfig tx) = Inr (h2, parsed)"
    and r: "redact h2 parsed = Inr (h3, parsed)"
    and c2: "closed_above (length ?h) h2" and ab: "above (length ?h) parsed"
    and ext: "\<exists>ext. h2 = ?h @ ext" and len: "length h3 = length h2"
    and old: "\<forall>a < length ?h. h3 ! a = ?h ! a"
    and w': "w' = \<lparr>w_heap = h3[logRecord := Object (assign_props fs (own_props h3 parsed))],
           w_written = w_written w @ [logRecord]\<rparr>"
    by (rule log_record_success)
  from ext len have le: "length ?h \<le> length (w_heap w')" unfolding w' by auto
  have frame: "\<forall>a < length ?h. a \<noteq> logRecord \<longrightarrow> w_heap w' ! a = ?h ! a"
    unfolding w' using old by simp
  have copy: "\<exists>redact fs tx h2 parsed h3.
        fastRedact (spread_serialize_false redactConfig) = Inr redact \<and>
        lookup ?h logRecord = Some (Object fs) \<and>
        JSON_stringify_cell ?h (Object (rest_of fs)) = Inr (Some tx) \<and>
        JSON_parse ?h (globalReplace_of redactConfig tx) = Inr (h2, parsed) \<and>
        redact h2 parsed = Inr (h3, parsed) \<and>
        above (length ?h) parsed \<and> closed_above (length ?h) h2 \<and>
        (\<forall>a < length ?h. h3 ! a = ?h ! a)"
    using fr look s p r ab c2 old by blast
  have stable: "wf_heap ?h \<and> unreferenced ?h logRecord \<longrightarrow>
       (\<forall>ext v. wf_val ?h v \<and> v \<noteq> VRef logRecord \<longrightarrow>
          snap (w_heap w' @ ext) [] v = snap (?h @ ext) [] v) \<and>
       (\<forall>ext fs2. list_all (\<lambda>p. wf_val ?h (snd p) \<and> snd p \<noteq> VRef logRecord) fs2 \<longrightarrow>
          JSON_stringify_cell (w_heap w' @ ext) (Object fs2)
            = JSON_stringify_cell (?h @ ext) (Object fs2))"
  proof (intro impI, elim conjE)
    assume wf: "wf_heap ?h" and un: "unreferenced ?h logRecord"
    have snaps: "snap (w_heap w' @ ext) [] v = snap (?h @ ext) [] v"
      if v: "wf_val ?h v" "v \<noteq> VRef logRecord" for ext v
    proof -
      have "\<forall>a < length ?h. a \<noteq> logRecord \<longrightarrow> (w_heap w' @ ext) ! a = ?h ! a"
        using frame le by (simp add: nth_append)
      moreover have "length ?h \<le> length (w_heap w' @ ext)" using le by simp
      ultimately have a: "snap (w_heap w' @ ext) [] v = snap ?h [] v"
        using wf un v by (intro snap_stable) simp_all
      have "\<forall>a < length ?h. a \<noteq> logRecord \<longrightarrow> (?h @ ext) ! a = ?h ! a"
        by (simp add: nth_append)
      then have b: "snap (?h @ ext) [] v = snap ?h [] v"
        using wf un v by (intro snap_stable) simp_all
      from a b show ?thesis by simp
    qed
    have texts: "JSON_stringify_cell (w_heap w' @ ext) (Object fs2)
            = JSON_stringify_cell (?h @ ext) (Object fs2)"
      if "list_all (\<lambda>p. wf_val ?h (snd p) \<and> snd p \<noteq> VRef logRecord) fs2" for ext fs2
    proof -
      from that have "map (\<lambda>(k, v). (k, snap (w_heap w' @ ext) [] v)) fs2
          = map (\<lambda>(k, v). (k, snap (?h @ ext) [] v)) fs2"
        by (auto simp: list_all_iff intro!: snaps)
      then show ?thesis
        unfolding JSON_stringify_cell_def snap_cell_def by (simp only: obj.case)
    qed
    from snaps texts show "(\<forall>ext v. wf_val ?h v \<and> v \<noteq> VRef logRecord \<longrightarrow>
          snap (w_heap w' @ ext) [] v = snap (?h @ ext) [] v) \<and>
       (\<forall>ext fs2. list_all (\<lambda>p. wf_val ?h (snd p) \<and> snd p \<noteq> VRef logRecord) fs2 \<longrightarrow>
          JSON_stringify_cell (w_heap w' @ ext) (Object fs2)
            = JSON_stringify_cell (?h @ ext) (Object fs2))"
      by blast
  qed
  from le frame copy stable show ?thesis by blast
qed

theorem caller_objects_unchanged_witness:
  "log_record \<lparr>GAE_SERVICE = None, K_SERVICE = None, LOG_LEVEL = None\<rparr> None
     (Some \<lparr>opt_paths = Some [[Key ''req'', Key ''password'']], opt_censor = None,
            opt_serialize = None, opt_remove = None, opt_strict = None,
            opt_globalReplace = None\<rparr>)
     \<lparr>w_heap = [Object [(''user'', VStr ''a''), (''password'', VStr ''secret'')],
                 Object [(''level'', VNum 30), (''msg'', VStr ''hi''), (''req'', VRef 0)]],
      w_written = []\<rparr> 1
     = Inr \<lparr>w_heap = [Object [(''user'', VStr ''a''), (''password'', VStr ''secret'')],
                       Object [(''level'', VNum 30), (''msg'', VStr ''hi''), (''req'', VRef 2)],
                       Object [(''user'', VStr ''a''), (''password'', VStr ''[REDACTED]'')],
                       Object [(''msg'', VStr ''hi''), (''req'', VRef 2)]],
              w_written = [1]\<rparr> \<and>
   wf_heap [Object [(''user'', VStr ''a''), (''password'', VStr ''secret'')],
            Object [(''level'', VNum 30), (''msg'', VStr ''hi''), (''req'', VRef 0)]] \<and>
   unreferenced [Object [(''user'', VStr ''a''), (''password'', VStr ''secret'')],
                 Object [(''level'', VNum 30), (''msg'', VStr ''hi''), (''req'', VRef 0)]] 1 \<and>
   JSON_stringify_cell
     ([Object [(''user'', VStr ''a''), (''password'', VStr ''secret'')],
       Object [(''level'', VNum 30), (''msg'', VStr ''hi''), (''req'', VRef 2)],
       Object [(''user'', VStr ''a''), (''password'', VStr ''[REDACTED]'')],
       Object [(''msg'', VStr ''hi''), (''req'', VRef 2)]]
      @ [Object [(''level'', VNum 30), (''msg'', VStr ''again''), (''req'', VRef 0)]])
     (Object [(''msg'', VStr ''again''), (''req'', VRef 0)])
   = JSON_stringify_cell
     ([Object [(''user'', VStr ''a''), (''password'', VStr ''secret'')],
       Object [(''level'', VNum 30), (''msg'', VStr ''hi''), (''req'', VRef 0)]]
      @ [Object [(''level'', VNum 30), (''msg'', VStr ''again''), (''req'', VRef 0)]])
     (Object [(''msg'', VStr ''again''), (''req'', VRef 0)]) \<and>
   log_record \<lparr>GAE_SERVICE = None, K_SERVICE = None, LOG_LEVEL = None\<rparr> None
     (Some \<lparr>opt_paths = Some [[Key ''req'', Key ''password'']], opt_censor = None,
            opt_serialize = None, opt_remove = None, opt_strict = None,
            opt_globalReplace = None\<rparr>)
     \<lparr>w_heap = [Object [(''user'', VStr ''a''), (''password'', VStr ''secret'')],
                 Object [(''level'', VNum 30), (''msg'', VStr ''hi''), (''req'', VRef 2)],
                 Object [(''user'', VStr ''a''), (''password'', VStr ''[REDACTED]'')],
                 Object [(''msg'', VStr ''hi''), (''req'', VRef 2)],
                 Object [(''level'', VNum 30), (''msg'', VStr ''again''), (''req'', VRef 0)]],
      w_written = [1]\<rparr> 4
     = Inr \<lparr>w_heap = [Object [(''user'', VStr ''a''), (''password'', VStr ''secret'')],
                       Object [(''level'', VNum 30), (''msg'', VStr ''hi''), (''req'', VRef 2)],
                       Object [(''user'', VStr ''a''), (''password'', VStr ''[REDACTED]'')],
                       Object [(''msg'', VStr ''hi''), (''req'', VRef 2)],
                       Object [(''level'', VNum 30), (''msg'', VStr ''again''), (''req'', VRef 5)],
                       Object [(''user'', VStr ''a''), (''password'', VStr ''[REDACTED]'')],
                       Object [(''msg'', VStr ''again''), (''req'', VRef 5)]],
              w_written = [1, 4]\<rparr>"
proof -
  let ?e = "\<lparr>GAE_SERVICE = None, K_SERVICE = None, LOG_LEVEL = None\<rparr>"
  let ?cfg = "Some \<lparr>opt_paths = Some [[Key ''req'', Key ''password'']], opt_censor = None,
            opt_serialize = None, opt_remove = None, opt_strict = None,
            opt_globalReplace = None\<rparr>"
  let ?h = "[Object [(''user'', VStr ''a''), (''password'', VStr ''secret'')],
            Object [(''level'', VNum 30), (''msg'', VStr ''hi''), (''req'', VRef 0)]]"
  let ?h1 = "[Object [(''user'', VStr ''a''), (''password'', VStr ''secret'')],
             Object [(''level'', VNum 30), (''msg'', VStr ''hi''), (''req'', VRef 2)],
             Object [(''user'', VStr ''a''), (''password'', VStr ''[REDACTED]'')],
             Object [(''msg'', VStr ''hi''), (''req'', VRef 2)]]"
  let ?rec2 = "Object [(''level'', VNum 30), (''msg'', VStr ''again''), (''req'', VRef 0)]"
  let ?fs2 = "[(''msg'', VStr ''again''), (''req'', VRef 0)]"
  have run: "log_record ?e None ?cfg \<lparr>w_heap = ?h, w_written = []\<rparr> 1
      = Inr \<lparr>w_heap = ?h1, w_written = [1]\<rparr>"
    by code_simp
  have wf: "wf_heap ?h" by (simp add: wf_heap_def cell_vals_def cell_props_def)
  have un: "unreferenced ?h 1" by (simp add: unreferenced_def cell_vals_def cell_props_def)
  have fs2: "list_all (\<lambda>p. wf_val ?h (snd p) \<and> snd p \<noteq> VRef 1) ?fs2" by simp
  from caller_objects_unchanged [OF run] wf un
  have "\<forall>ext fs2. list_all (\<lambda>p. wf_val ?h (snd p) \<and> snd p \<noteq> VRef 1) fs2 \<longrightarrow>
          JSON_stringify_cell (?h1 @ ext) (Object fs2) = JSON_stringify_cell (?h @ ext) (Object fs2)"
    by simp
  with fs2 have same: "JSON_stringify_cell (?h1 @ [?rec2]) (Object ?fs2)
      = JSON_stringify_cell (?h @ [?rec2]) (Object ?fs2)"
    by blast
  have again: "log_record ?e None ?cfg \<lparr>w_heap = [Object [(''user'', VStr ''a''), (''password'', VStr ''secret'')],
                 Object [(''level'', VNum 30), (''msg'', VStr ''hi''), (''req'', VRef 2)],
                 Object [(''user'', VStr ''a''), (''password'', VStr ''[REDACTED]'')],
                 Object [(''msg'', VStr ''hi''), (''req'', VRef 2)],
                 Object [(''level'', VNum 30), (''msg'', VStr ''again''), (''req'', VRef 0)]],
      w_written = [1]\<rparr> 4
     = Inr \<lparr>w_heap = [Object [(''user'', VStr ''a''), (''password'', VStr ''secret'')],
                       Object [(''level'', VNum 30), (''msg'', VStr ''hi''), (''req'', VRef 2)],
                       Object [(''user'', VStr ''a''), (''password'', VStr ''[REDACTED]'')],
                       Object [(''msg'', VStr ''hi''), (''req'', VRef 2)],
                       Object [(''level'', VNum 30), (''msg'', VStr ''again''), (''req'', VRef 5)],
                       Object [(''user'', VStr ''a''), (''password'', VStr ''[REDACTED]'')],
                       Object [(''msg'', VStr ''again''), (''req'', VRef 5)]],
              w_written = [1, 4]\<rparr>"
    by code_simp
  from run wf un same again show ?thesis by (intro conjI)
qed

end
